theory Spec2Isabelle
  imports Complex_Main
begin

section \<open>Numbers\<close>

text \<open>
  The solver computes with Python floats.  Its sentinels are \<open>math.inf\<close> and
  \<open>-math.inf\<close>, and arithmetic on them can produce a not-a-number, which no
  comparison accepts.  A value is therefore a finite real, one of the two infinities,
  or not-a-number.  Arithmetic on two finite values is exact here: rounding, overflow
  to infinity and the sign of zero are outside this model.
\<close>

datatype fl = Fin real | PInf | MInf | NaN

fun fadd :: "fl \<Rightarrow> fl \<Rightarrow> fl" where
  "fadd (Fin a) (Fin b) = Fin (a + b)"
| "fadd (Fin a) PInf = PInf"
| "fadd (Fin a) MInf = MInf"
| "fadd PInf (Fin b) = PInf"
| "fadd MInf (Fin b) = MInf"
| "fadd PInf PInf = PInf"
| "fadd MInf MInf = MInf"
| "fadd PInf MInf = NaN"
| "fadd MInf PInf = NaN"
| "fadd NaN y = NaN"
| "fadd x NaN = NaN"

fun fmul :: "fl \<Rightarrow> fl \<Rightarrow> fl" where
  "fmul (Fin a) (Fin b) = Fin (a * b)"
| "fmul (Fin a) PInf = (if a = 0 then NaN else if 0 < a then PInf else MInf)"
| "fmul (Fin a) MInf = (if a = 0 then NaN else if 0 < a then MInf else PInf)"
| "fmul PInf (Fin b) = (if b = 0 then NaN else if 0 < b then PInf else MInf)"
| "fmul MInf (Fin b) = (if b = 0 then NaN else if 0 < b then MInf else PInf)"
| "fmul PInf PInf = PInf"
| "fmul MInf MInf = PInf"
| "fmul PInf MInf = MInf"
| "fmul MInf PInf = MInf"
| "fmul NaN y = NaN"
| "fmul x NaN = NaN"

text \<open>Python's \<open>a < b\<close>, \<open>a > b\<close> and \<open>a == b\<close> on floats.\<close>

fun flt :: "fl \<Rightarrow> fl \<Rightarrow> bool" where
  "flt (Fin a) (Fin b) = (a < b)"
| "flt (Fin a) PInf = True"
| "flt MInf (Fin b) = True"
| "flt MInf PInf = True"
| "flt x y = False"

definition fgt :: "fl \<Rightarrow> fl \<Rightarrow> bool" where
  "fgt a b = flt b a"

fun feq :: "fl \<Rightarrow> fl \<Rightarrow> bool" where
  "feq (Fin a) (Fin b) = (a = b)"
| "feq PInf PInf = True"
| "feq MInf MInf = True"
| "feq x y = False"

definition fge :: "fl \<Rightarrow> fl \<Rightarrow> bool" where
  "fge a b = (fgt a b \<or> feq a b)"

text \<open>\<open>float(x).is_integer()\<close> and \<open>int(x)\<close> for a value that passed it.\<close>

fun is_integer :: "fl \<Rightarrow> bool" where
  "is_integer (Fin a) = (of_int \<lfloor>a\<rfloor> = a)"
| "is_integer x = False"

fun to_int :: "fl \<Rightarrow> int" where
  "to_int (Fin a) = \<lfloor>a\<rfloor>"
| "to_int x = 0"

section \<open>Data\<close>

text \<open>
  \<open>layers\<close> is a list of lists of node names.  \<open>edges\<close> is a dict of dicts; a dict is
  an association list in insertion order here, because validation iterates over it and
  raises at the first defect it meets.  \<open>edges.get(u, {})\<close>, \<open>v in nbrs\<close> and
  \<open>nbrs[v]\<close> are lookups with \<open>map_of\<close>.  The keys of a dict are distinct; no
  theorem below needs that of its input.  A weight is read with \<open>float(nbrs[v])\<close>, so
  it is a value of the type above.
\<close>

type_synonym node = string
type_synonym layers = "node list list"
type_synonym nbrs = "(node \<times> fl) list"
type_synonym edges = "(node \<times> nbrs) list"

text \<open>
  Every \<open>raise\<close> of the source is a constructor, in the order of the source:
  the five messages of \<open>_validate_stagecoach\<close> (unknown source and unknown destination
  share one message in the source and are told apart here by the node they carry),
  the two configuration errors, the dead end with the node and the number \<open>t+1\<close> of
  its message, the \<open>RuntimeError\<close> of the reconstruction walk, and the \<open>KeyError\<close>
  of \<open>f_star[start]\<close>.
\<close>

datatype error =
    LayersMalformed
  | NodeInSeveralStages node
  | StartGoalMissing
  | StartGoalMisplaced
  | EdgeNodeUnknown node
  | EdgeNotNextStage node node
  | BadOptMode
  | BadCombineOp
  | DeadEnd node nat
  | NoPath node
  | KeyError node

text \<open>
  A stage table is handed to \<open>tabulate\<close> as a title, headers and rows; the model keeps
  that data and leaves the text layout to the library.
\<close>

datatype cell = Blank | IntCell int | NumCell fl

record row =
  row_node :: node
  row_totals :: "cell list"
  row_best :: cell
  row_next :: string

record stage_table =
  title_stage :: nat
  title_mode :: string
  title_op :: string
  headers :: "string list"
  table_rows :: "row list"

record stagecoach_result =
  optimal_cost :: fl
  path :: "node list"
  tables :: "stage_table list"
  f_star :: "node \<rightharpoonup> fl"
  policy :: "node \<rightharpoonup> node list"

section \<open>Validation\<close>

fun assign_layer :: "nat \<Rightarrow> node list \<Rightarrow> (node \<rightharpoonup> nat) \<Rightarrow> error + (node \<rightharpoonup> nat)" where
  "assign_layer k [] stage_of = Inr stage_of"
| "assign_layer k (u # us) stage_of =
     (if stage_of u \<noteq> None then Inl (NodeInSeveralStages u)
      else assign_layer k us (stage_of(u \<mapsto> k)))"

fun assign_stages :: "nat \<Rightarrow> layers \<Rightarrow> (node \<rightharpoonup> nat) \<Rightarrow> error + (node \<rightharpoonup> nat)" where
  "assign_stages k [] stage_of = Inr stage_of"
| "assign_stages k (L # Ls) stage_of =
     (case assign_layer k L stage_of of
        Inl e \<Rightarrow> Inl e
      | Inr stage_of' \<Rightarrow> assign_stages (Suc k) Ls stage_of')"

fun check_nbrs :: "(node \<rightharpoonup> nat) \<Rightarrow> node \<Rightarrow> nat \<Rightarrow> nbrs \<Rightarrow> error + unit" where
  "check_nbrs stage_of u su [] = Inr ()"
| "check_nbrs stage_of u su ((v, w) # rest) =
     (case stage_of v of
        None \<Rightarrow> Inl (EdgeNodeUnknown v)
      | Some sv \<Rightarrow>
          if sv \<noteq> su + 1 then Inl (EdgeNotNextStage u v)
          else check_nbrs stage_of u su rest)"

fun check_edges :: "(node \<rightharpoonup> nat) \<Rightarrow> edges \<Rightarrow> error + unit" where
  "check_edges stage_of [] = Inr ()"
| "check_edges stage_of ((u, nb) # rest) =
     (case stage_of u of
        None \<Rightarrow> Inl (EdgeNodeUnknown u)
      | Some su \<Rightarrow>
          (case check_nbrs stage_of u su nb of
             Inl e \<Rightarrow> Inl e
           | Inr _ \<Rightarrow> check_edges stage_of rest))"

definition validate_stagecoach ::
  "layers \<Rightarrow> edges \<Rightarrow> node \<Rightarrow> node \<Rightarrow> error + ((node \<rightharpoonup> nat) \<times> node list)" where
  "validate_stagecoach layers edges start goal =
     (if layers = [] \<or> \<not> list_all (\<lambda>L. length L > 0) layers then Inl LayersMalformed
      else case assign_stages 0 layers Map.empty of
        Inl e \<Rightarrow> Inl e
      | Inr stage_of \<Rightarrow>
          (case stage_of start of
             None \<Rightarrow> Inl StartGoalMissing
           | Some s_start \<Rightarrow>
               (case stage_of goal of
                  None \<Rightarrow> Inl StartGoalMissing
                | Some s_goal \<Rightarrow>
                    if s_start \<noteq> 0 \<or> s_goal \<noteq> length layers - 1
                    then Inl StartGoalMisplaced
                    else (case check_edges stage_of edges of
                            Inl e \<Rightarrow> Inl e
                          | Inr _ \<Rightarrow> Inr (stage_of, concat layers)))))"

section \<open>The solver\<close>

definition agg_init :: "string \<Rightarrow> fl" where
  "agg_init opt_mode = (if opt_mode = ''min'' then PInf else MInf)"

definition better :: "string \<Rightarrow> fl \<Rightarrow> fl \<Rightarrow> bool" where
  "better opt_mode a b = (if opt_mode = ''min'' then flt a b else fgt a b)"

definition combine :: "string \<Rightarrow> fl \<Rightarrow> fl \<Rightarrow> fl" where
  "combine combine_op w x = (if combine_op = ''+'' then fadd w x else fmul w x)"

definition terminal_value :: "string \<Rightarrow> fl" where
  "terminal_value combine_op = (if combine_op = ''+'' then Fin 0 else Fin 1)"

text \<open>\<open>f_star.get(v, agg_init)\<close> and \<open>edges.get(u, {})\<close>.\<close>

definition f_get :: "(node \<rightharpoonup> fl) \<Rightarrow> node \<Rightarrow> fl \<Rightarrow> fl" where
  "f_get f v d = (case f v of Some x \<Rightarrow> x | None \<Rightarrow> d)"

definition edges_get :: "edges \<Rightarrow> node \<Rightarrow> nbrs" where
  "edges_get edges u = (case map_of edges u of Some nb \<Rightarrow> nb | None \<Rightarrow> [])"

text \<open>
  The body of \<open>for v in next_layer\<close>: the loop state is \<open>totals\<close>, \<open>best_val\<close> and
  \<open>best_vs\<close>.
\<close>

fun scan_step ::
  "string \<Rightarrow> string \<Rightarrow> nbrs \<Rightarrow> (node \<rightharpoonup> fl) \<Rightarrow> node \<Rightarrow>
   fl option list \<times> fl \<times> node list \<Rightarrow> fl option list \<times> fl \<times> node list" where
  "scan_step opt_mode combine_op nb f v (totals, best_val, best_vs) =
     (case map_of nb v of
        Some w \<Rightarrow>
          (let tot = combine combine_op w (f_get f v (agg_init opt_mode)) in
           if better opt_mode tot best_val then (totals @ [Some tot], tot, [v])
           else if feq tot best_val then (totals @ [Some tot], best_val, best_vs @ [v])
           else (totals @ [Some tot], best_val, best_vs))
      | None \<Rightarrow> (totals @ [None], best_val, best_vs))"

definition scan_next ::
  "string \<Rightarrow> string \<Rightarrow> nbrs \<Rightarrow> (node \<rightharpoonup> fl) \<Rightarrow> node list \<Rightarrow> fl option list \<times> fl \<times> node list" where
  "scan_next opt_mode combine_op nb f next_layer =
     fold (scan_step opt_mode combine_op nb f) next_layer ([], agg_init opt_mode, [])"

definition pretty :: "fl \<Rightarrow> cell" where
  "pretty x = (if is_integer x then IntCell (to_int x) else NumCell x)"

fun join_comma :: "string list \<Rightarrow> string" where
  "join_comma [] = []"
| "join_comma [s] = s"
| "join_comma (s # t # rest) = s @ '','' @ join_comma (t # rest)"

text \<open>
  The body of \<open>for u in current\<close>: scan the next layer, raise when no successor was
  recorded, otherwise store \<open>f_star[u]\<close> and \<open>policy[u]\<close> and add the row.
\<close>

fun process_nodes ::
  "string \<Rightarrow> string \<Rightarrow> edges \<Rightarrow> nat \<Rightarrow> node list \<Rightarrow> node list \<Rightarrow>
   (node \<rightharpoonup> fl) \<times> (node \<rightharpoonup> node list) \<times> row list \<Rightarrow>
   error + (node \<rightharpoonup> fl) \<times> (node \<rightharpoonup> node list) \<times> row list" where
  "process_nodes opt_mode combine_op edges t next_layer [] st = Inr st"
| "process_nodes opt_mode combine_op edges t next_layer (u # us) (f, p, rws) =
     (case scan_next opt_mode combine_op (edges_get edges u) f next_layer of
        (totals, best_val, best_vs) \<Rightarrow>
          if best_vs = [] then Inl (DeadEnd u (t + 1))
          else process_nodes opt_mode combine_op edges t next_layer us
                 (f(u \<mapsto> best_val), p(u \<mapsto> best_vs),
                  rws @ [\<lparr>row_node = u,
                          row_totals = map (\<lambda>x. case x of None \<Rightarrow> Blank | Some y \<Rightarrow> pretty y) totals,
                          row_best = pretty best_val,
                          row_next = join_comma best_vs\<rparr>]))"

text \<open>One round of \<open>for t in range(K - 1, -1, -1)\<close>, and the loop over the rounds.\<close>

definition process_stage ::
  "string \<Rightarrow> string \<Rightarrow> layers \<Rightarrow> edges \<Rightarrow> nat \<Rightarrow>
   (node \<rightharpoonup> fl) \<times> (node \<rightharpoonup> node list) \<times> stage_table list \<Rightarrow>
   error + (node \<rightharpoonup> fl) \<times> (node \<rightharpoonup> node list) \<times> stage_table list" where
  "process_stage opt_mode combine_op layers edges t st =
     (case st of (f, p, tabs) \<Rightarrow>
        (case process_nodes opt_mode combine_op edges t (layers ! (t + 1)) (layers ! t) (f, p, []) of
           Inl e \<Rightarrow> Inl e
         | Inr (f', p', rws) \<Rightarrow>
             Inr (f', p',
                  tabs @ [\<lparr>title_stage = t + 1, title_mode = opt_mode, title_op = combine_op,
                           headers = [''node''] @ layers ! (t + 1) @ [''f* (node)'', ''next*''],
                           table_rows = rws\<rparr>])))"

fun stages_loop ::
  "string \<Rightarrow> string \<Rightarrow> layers \<Rightarrow> edges \<Rightarrow> nat list \<Rightarrow>
   (node \<rightharpoonup> fl) \<times> (node \<rightharpoonup> node list) \<times> stage_table list \<Rightarrow>
   error + (node \<rightharpoonup> fl) \<times> (node \<rightharpoonup> node list) \<times> stage_table list" where
  "stages_loop opt_mode combine_op layers edges [] st = Inr st"
| "stages_loop opt_mode combine_op layers edges (t # ts) st =
     (case process_stage opt_mode combine_op layers edges t st of
        Inl e \<Rightarrow> Inl e
      | Inr st' \<Rightarrow> stages_loop opt_mode combine_op layers edges ts st')"

text \<open>
  The reconstruction walk \<open>while u != goal\<close>.  Nothing in the loop itself bounds it, so
  it is a partial function: \<open>None\<close> is a walk that never ends.
\<close>

partial_function (option) walk ::
  "(node \<rightharpoonup> node list) \<Rightarrow> node \<Rightarrow> node \<Rightarrow> node list \<Rightarrow> (error + node list) option" where
  "walk p goal u pth =
     (if u = goal then Some (Inr pth)
      else (case p u of
              None \<Rightarrow> Some (Inl (NoPath u))
            | Some [] \<Rightarrow> Some (Inl (NoPath u))
            | Some (v # vs) \<Rightarrow> walk p goal v (pth @ [v])))"

declare walk.simps [code]

text \<open>
  \<open>solve_stagecoach_dp\<close>.  Printing the tables (\<open>print_tables\<close>) does not change the
  result and is left out.
\<close>

definition solve_stagecoach_dp ::
  "layers \<Rightarrow> edges \<Rightarrow> node \<Rightarrow> node \<Rightarrow> string \<Rightarrow> string \<Rightarrow> (error + stagecoach_result) option" where
  "solve_stagecoach_dp layers edges start goal opt_mode combine_op =
     (if opt_mode \<noteq> ''min'' \<and> opt_mode \<noteq> ''max'' then Some (Inl BadOptMode)
      else if combine_op \<noteq> ''+'' \<and> combine_op \<noteq> ''*'' then Some (Inl BadCombineOp)
      else case validate_stagecoach layers edges start goal of
        Inl e \<Rightarrow> Some (Inl e)
      | Inr _ \<Rightarrow>
          (case stages_loop opt_mode combine_op layers edges (rev [0..<length layers - 1])
                  ([goal \<mapsto> terminal_value combine_op], [goal \<mapsto> []], []) of
             Inl e \<Rightarrow> Some (Inl e)
           | Inr (f, p, tabs) \<Rightarrow>
               (case walk p goal start [start] of
                  None \<Rightarrow> None
                | Some (Inl e) \<Rightarrow> Some (Inl e)
                | Some (Inr pth) \<Rightarrow>
                    (case f start of
                       None \<Rightarrow> Some (Inl (KeyError start))
                     | Some c \<Rightarrow>
                         Some (Inr \<lparr>optimal_cost = c, path = pth, tables = tabs,
                                    f_star = f, policy = p\<rparr>)))))"

section \<open>All optimal paths\<close>



section \<open>Vocabulary of the properties\<close>

text \<open>
  The value \<open>tot\<close> that the scan computes for the edge from \<open>u\<close> to \<open>v\<close>, if there is
  one, and the test \<open>tot == best_val\<close>.
\<close>

definition candidate :: "string \<Rightarrow> string \<Rightarrow> edges \<Rightarrow> (node \<rightharpoonup> fl) \<Rightarrow> node \<Rightarrow> node \<Rightarrow> fl option" where
  "candidate opt_mode combine_op edges f u v =
     (case map_of (edges_get edges u) v of
        None \<Rightarrow> None
      | Some w \<Rightarrow> Some (combine combine_op w (f_get f v (agg_init opt_mode))))"

definition ties :: "string \<Rightarrow> string \<Rightarrow> edges \<Rightarrow> (node \<rightharpoonup> fl) \<Rightarrow> node \<Rightarrow> fl \<Rightarrow> node \<Rightarrow> bool" where
  "ties opt_mode combine_op edges f u bv v =
     (case candidate opt_mode combine_op edges f u v of None \<Rightarrow> False | Some c \<Rightarrow> feq c bv)"

text \<open>
  What the scan has established after the nodes \<open>seen\<close> of the next layer: \<open>best_vs\<close>
  lists, in order, the nodes seen whose value equals \<open>best_val\<close>; no value seen is better
  than \<open>best_val\<close>; \<open>best_val\<close> is a number, namely the sentinel or one of the values seen.
\<close>

definition scan_inv ::
  "string \<Rightarrow> string \<Rightarrow> edges \<Rightarrow> (node \<rightharpoonup> fl) \<Rightarrow> node \<Rightarrow> node list \<Rightarrow> fl \<Rightarrow> node list \<Rightarrow> bool" where
  "scan_inv opt_mode combine_op edges f u seen bv bvs \<longleftrightarrow>
     bvs = filter (ties opt_mode combine_op edges f u bv) seen \<and>
     (\<forall>v\<in>set seen. \<forall>c. candidate opt_mode combine_op edges f u v = Some c \<longrightarrow> \<not> better opt_mode c bv) \<and>
     bv \<noteq> NaN \<and>
     (bv = agg_init opt_mode \<or> (\<exists>v\<in>set seen. candidate opt_mode combine_op edges f u v = Some bv))"

text \<open>
  The state of the backward pass once the nodes \<open>D\<close> are processed: the goal keeps its
  terminal entries, no other node outside \<open>D\<close> has an entry, and each node of \<open>D\<close> holds
  the outcome of a full scan of the layer after its own, read in the present \<open>f_star\<close>.
\<close>

definition solved ::
  "string \<Rightarrow> string \<Rightarrow> layers \<Rightarrow> edges \<Rightarrow> node \<Rightarrow> node set \<Rightarrow>
   (node \<rightharpoonup> fl) \<Rightarrow> (node \<rightharpoonup> node list) \<Rightarrow> bool" where
  "solved opt_mode combine_op layers edges goal D f p \<longleftrightarrow>
     f goal = Some (terminal_value combine_op) \<and> p goal = Some [] \<and>
     (\<forall>u. u \<notin> D \<and> u \<noteq> goal \<longrightarrow> f u = None \<and> p u = None) \<and>
     (\<forall>u\<in>D. \<exists>t bv bvs. Suc t < length layers \<and> u \<in> set (layers ! t) \<and>
         set (layers ! Suc t) \<subseteq> D \<union> set (last layers) \<and>
         f u = Some bv \<and> p u = Some bvs \<and> bvs \<noteq> [] \<and>
         scan_inv opt_mode combine_op edges f u (layers ! Suc t) bv bvs)"

text \<open>The nodes of the stages \<open>t\<close> to \<open>K-1\<close>: those processed when the loop has done stage \<open>t\<close>.\<close>

definition done_nodes :: "layers \<Rightarrow> nat \<Rightarrow> node set" where
  "done_nodes layers t = (\<Union>i\<in>{t..<length layers - 1}. set (layers ! i))"

text \<open>
  \<open>sfx\<close> continues \<open>u\<close> to the goal along the policy: each node but the goal is followed
  by one of the successors \<open>policy.get(u, [])\<close>.
\<close>

fun policy_chain :: "(node \<rightharpoonup> node list) \<Rightarrow> node \<Rightarrow> node \<Rightarrow> node list \<Rightarrow> bool" where
  "policy_chain p goal u [] = (u = goal)"
| "policy_chain p goal u (v # rest) =
     (u \<noteq> goal \<and> v \<in> set (case p u of Some vs \<Rightarrow> vs | None \<Rightarrow> []) \<and> policy_chain p goal v rest)"

text \<open>Validation passes.\<close>

definition validates :: "layers \<Rightarrow> edges \<Rightarrow> node \<Rightarrow> node \<Rightarrow> bool" where
  "validates layers edges start goal =
     (case validate_stagecoach layers edges start goal of Inl e \<Rightarrow> False | Inr r \<Rightarrow> True)"


text \<open>The example of the specification, which is also the default input of the application.\<close>

definition ex_layers :: layers where
  "ex_layers = [[''S''], [''A'', ''B''], [''C'', ''D''], [''T'']]"

definition ex_edges :: edges where
  "ex_edges = [(''S'', [(''A'', Fin 2), (''B'', Fin 5)]),
               (''A'', [(''C'', Fin 4), (''D'', Fin 1)]),
               (''B'', [(''C'', Fin 2)]),
               (''C'', [(''T'', Fin 3)]),
               (''D'', [(''T'', Fin 2)])]"

text \<open>A last stage with a node beside the goal, reached from \<open>B\<close> only.\<close>

definition stray_layers :: layers where
  "stray_layers = [[''S''], [''A'', ''B''], [''T'', ''X'']]"

definition stray_edges :: edges where
  "stray_edges = [(''S'', [(''A'', Fin 1), (''B'', Fin 1)]),
                  (''A'', [(''T'', Fin 1)]),
                  (''B'', [(''X'', Fin 1)])]"

text \<open>The same, with the start leading to the node beside the goal only.\<close>

definition lost_layers :: layers where
  "lost_layers = [[''S''], [''X'', ''T'']]"

definition lost_edges :: "fl \<Rightarrow> edges" where
  "lost_edges w = [(''S'', [(''X'', w)])]"

text \<open>Three stages in a row, for inputs with several defects.\<close>

definition row_layers :: layers where
  "row_layers = [[''S''], [''A''], [''T'']]"

definition skip_edges :: edges where
  "skip_edges = [(''S'', [(''T'', Fin 1)]), (''A'', [(''S'', Fin 1)])]"

text \<open>The same three stages with an edge out of the start only, and with no edge at all.\<close>

definition gap_edges :: edges where
  "gap_edges = [(''S'', [(''A'', Fin 1)])]"



definition keeps_sentinel :: "string \<Rightarrow> fl \<Rightarrow> bool" where
  "keeps_sentinel combine_op w =
     (case w of Fin a \<Rightarrow> combine_op = ''+'' \<or> 0 < a | PInf \<Rightarrow> combine_op \<noteq> ''+'' | _ \<Rightarrow> False)"



text \<open>Every weight of the input is strictly positive, by Python's \<open>w > 0\<close>.\<close>

definition positive_weights :: "edges \<Rightarrow> bool" where
  "positive_weights edges = list_all (\<lambda>e. list_all (\<lambda>vw. fgt (snd vw) (Fin 0)) (snd e)) edges"

text \<open>The errors raised by \<open>_validate_stagecoach\<close>.\<close>

fun is_structure_error :: "error \<Rightarrow> bool" where
  "is_structure_error LayersMalformed = True"
| "is_structure_error (NodeInSeveralStages x) = True"
| "is_structure_error StartGoalMissing = True"
| "is_structure_error StartGoalMisplaced = True"
| "is_structure_error (EdgeNodeUnknown x) = True"
| "is_structure_error (EdgeNotNextStage x y) = True"
| "is_structure_error e = False"

section \<open>Lemmas\<close>

subsection \<open>The scan of the next layer\<close>

lemma feq_iff: "feq a b \<longleftrightarrow> a = b \<and> a \<noteq> NaN"
  by (cases a; cases b) auto

lemma better_not_nan: "better opt a b \<Longrightarrow> a \<noteq> NaN \<and> b \<noteq> NaN"
  by (cases a; cases b) (auto simp: better_def fgt_def split: if_splits)

lemma better_step: "better opt a b \<Longrightarrow> \<not> better opt c b \<Longrightarrow> \<not> better opt c a \<and> \<not> feq c a"
  by (cases a; cases b; cases c) (auto simp: better_def fgt_def split: if_splits)

lemma better_irrefl: "\<not> better opt a a"
  by (cases a) (auto simp: better_def fgt_def)

lemma not_better_agg: "c \<noteq> NaN \<Longrightarrow> \<not> better opt c (agg_init opt) \<Longrightarrow> c = agg_init opt"
  by (cases c) (auto simp: better_def fgt_def agg_init_def split: if_splits)

lemma agg_init_not_nan: "agg_init opt \<noteq> NaN"
  by (simp add: agg_init_def)

lemma scan_step_inv:
  assumes "scan_inv opt cop edges f u seen bv bvs"
    and "scan_step opt cop (edges_get edges u) f v (totals, bv, bvs) = (totals', bv', bvs')"
  shows "scan_inv opt cop edges f u (seen @ [v]) bv' bvs'"
proof (cases "map_of (edges_get edges u) v")
  case None
  then have c: "candidate opt cop edges f u v = None" by (simp add: candidate_def)
  from None assms(2) have "bv' = bv" "bvs' = bvs" by auto
  with assms(1) c show ?thesis by (auto simp: scan_inv_def ties_def)
next
  case (Some w)
  define tot where "tot = combine cop w (f_get f v (agg_init opt))"
  have c: "candidate opt cop edges f u v = Some tot" using Some by (simp add: candidate_def tot_def)
  consider (b) "better opt tot bv" | (e) "\<not> better opt tot bv" "feq tot bv" | (n) "\<not> better opt tot bv" "\<not> feq tot bv"
    by blast
  then show ?thesis
  proof cases
    case b
    with Some assms(2) have r: "bv' = tot" "bvs' = [v]" by (auto simp: tot_def Let_def)
    have nn: "tot \<noteq> NaN" using b better_not_nan by blast
    have old: "\<forall>x\<in>set seen. \<forall>c. candidate opt cop edges f u x = Some c \<longrightarrow> \<not> better opt c tot \<and> \<not> feq c tot"
      using assms(1) b better_step unfolding scan_inv_def by blast
    then have "filter (ties opt cop edges f u tot) seen = []"
      by (auto simp: filter_empty_conv ties_def split: option.splits)
    moreover have "ties opt cop edges f u tot v" using c nn by (simp add: ties_def feq_iff)
    ultimately show ?thesis using r old c nn better_irrefl
      by (auto simp: scan_inv_def)
  next
    case e
    with Some assms(2) have r: "bv' = bv" "bvs' = bvs @ [v]" by (auto simp: tot_def Let_def)
    have "ties opt cop edges f u bv v" using c e by (simp add: ties_def)
    then show ?thesis using r assms(1) c e by (auto simp: scan_inv_def)
  next
    case n
    with Some assms(2) have r: "bv' = bv" "bvs' = bvs" by (auto simp: tot_def Let_def)
    have "\<not> ties opt cop edges f u bv v" using c n by (simp add: ties_def)
    then show ?thesis using r assms(1) c n by (auto simp: scan_inv_def)
  qed
qed

lemma scan_fold_inv:
  "scan_inv opt cop edges f u seen bv bvs \<Longrightarrow>
   fold (scan_step opt cop (edges_get edges u) f) vs (totals, bv, bvs) = (totals', bv', bvs') \<Longrightarrow>
   scan_inv opt cop edges f u (seen @ vs) bv' bvs'"
proof (induction vs arbitrary: seen bv bvs totals)
  case Nil
  then show ?case by simp
next
  case (Cons v vs)
  obtain t1 b1 s1 where s: "scan_step opt cop (edges_get edges u) f v (totals, bv, bvs) = (t1, b1, s1)"
    by (metis prod_cases3)
  from scan_step_inv[OF Cons.prems(1) s] have i: "scan_inv opt cop edges f u (seen @ [v]) b1 s1" .
  from Cons.prems(2) s have "fold (scan_step opt cop (edges_get edges u) f) vs (t1, b1, s1) = (totals', bv', bvs')"
    by simp
  from Cons.IH[OF i this] show ?case by simp
qed

lemma scan_next_inv:
  "scan_next opt cop (edges_get edges u) f nl = (totals, bv, bvs) \<Longrightarrow>
   scan_inv opt cop edges f u nl bv bvs"
  using scan_fold_inv[of opt cop edges f u "[]" "agg_init opt" "[]" nl "[]" totals bv bvs]
  by (simp add: scan_next_def scan_inv_def agg_init_not_nan)

lemma scan_inv_empty:
  assumes "scan_inv opt cop edges f u nl bv bvs"
  shows "bvs = [] \<longleftrightarrow> (\<forall>v\<in>set nl. \<forall>c. candidate opt cop edges f u v = Some c \<longrightarrow> c = NaN)"
proof
  assume e: "bvs = []"
  have "filter (ties opt cop edges f u bv) nl = []"
    using assms e by (simp add: scan_inv_def)
  then have nt: "\<forall>v\<in>set nl. \<not> ties opt cop edges f u bv v"
    by (simp add: filter_empty_conv)
  have "bv = agg_init opt"
  proof (rule ccontr)
    assume "bv \<noteq> agg_init opt"
    then obtain v where "v \<in> set nl" "candidate opt cop edges f u v = Some bv"
      using assms by (auto simp: scan_inv_def)
    moreover have "bv \<noteq> NaN" using assms by (simp add: scan_inv_def)
    ultimately show False using nt by (auto simp: ties_def feq_iff)
  qed
  show "\<forall>v\<in>set nl. \<forall>c. candidate opt cop edges f u v = Some c \<longrightarrow> c = NaN"
  proof (intro ballI allI impI)
    fix v c assume v: "v \<in> set nl" and c: "candidate opt cop edges f u v = Some c"
    show "c = NaN"
    proof (rule ccontr)
      assume "c \<noteq> NaN"
      moreover have "\<not> better opt c (agg_init opt)"
        using assms v c \<open>bv = agg_init opt\<close> by (auto simp: scan_inv_def)
      ultimately have "c = agg_init opt" by (rule not_better_agg)
      then show False using nt v c \<open>bv = agg_init opt\<close> \<open>c \<noteq> NaN\<close>
        by (auto simp: ties_def feq_iff)
    qed
  qed
next
  assume "\<forall>v\<in>set nl. \<forall>c. candidate opt cop edges f u v = Some c \<longrightarrow> c = NaN"
  then have "filter (ties opt cop edges f u bv) nl = []"
    by (auto simp: filter_empty_conv ties_def split: option.splits)
  then show "bvs = []" using assms by (simp add: scan_inv_def)
qed

subsection \<open>Validation\<close>

lemma assign_layer_ok:
  "assign_layer k us m = Inr m' \<Longrightarrow>
   distinct us \<and> (\<forall>x\<in>set us. m x = None) \<and> (\<forall>x. m' x = (if x \<in> set us then Some k else m x))"
proof (induction us arbitrary: m)
  case Nil
  then show ?case by simp
next
  case (Cons u us)
  from Cons.prems have n: "m u = None" and r: "assign_layer k us (m(u \<mapsto> k)) = Inr m'"
    by (auto split: if_splits)
  from Cons.IH[OF r] have ih: "distinct us" "\<forall>x\<in>set us. (m(u \<mapsto> k)) x = None"
    "\<forall>x. m' x = (if x \<in> set us then Some k else (m(u \<mapsto> k)) x)" by auto
  from ih(2) have "u \<notin> set us" by auto
  moreover from ih(2) have "\<forall>x\<in>set us. m x = None" by (auto split: if_splits)
  ultimately show ?case using n ih(1) ih(3) by auto
qed

lemma assign_stages_ok:
  "assign_stages k Ls m = Inr m' \<Longrightarrow>
   distinct (concat Ls) \<and> (\<forall>x\<in>set (concat Ls). m x = None) \<and>
   (\<forall>x. x \<notin> set (concat Ls) \<longrightarrow> m' x = m x) \<and>
   (\<forall>i<length Ls. \<forall>x\<in>set (Ls ! i). m' x = Some (k + i))"
proof (induction Ls arbitrary: k m)
  case Nil
  then show ?case by simp
next
  case (Cons L Ls)
  from Cons.prems obtain m1 where a: "assign_layer k L m = Inr m1"
    and r: "assign_stages (Suc k) Ls m1 = Inr m'"
    by (auto split: sum.splits)
  from assign_layer_ok[OF a] have l: "distinct L" "\<forall>x\<in>set L. m x = None"
    "\<forall>x. m1 x = (if x \<in> set L then Some k else m x)" by auto
  from Cons.IH[OF r] have ih: "distinct (concat Ls)" "\<forall>x\<in>set (concat Ls). m1 x = None"
    "\<forall>x. x \<notin> set (concat Ls) \<longrightarrow> m' x = m1 x"
    "\<forall>i<length Ls. \<forall>x\<in>set (Ls ! i). m' x = Some (Suc k + i)" by auto
  have disj: "set L \<inter> set (concat Ls) = {}"
  proof (rule ccontr)
    assume "set L \<inter> set (concat Ls) \<noteq> {}"
    then obtain x where x: "x \<in> set L" "x \<in> set (concat Ls)" by blast
    from l(3) x(1) have "m1 x = Some k" by simp
    moreover from ih(2) x(2) have "m1 x = None" by blast
    ultimately show False by simp
  qed
  have d: "distinct (concat (L # Ls))" using l(1) ih(1) disj by simp
  have n: "\<forall>x\<in>set (concat (L # Ls)). m x = None"
  proof
    fix x assume "x \<in> set (concat (L # Ls))"
    then consider "x \<in> set L" | "x \<notin> set L" "x \<in> set (concat Ls)" by auto
    then show "m x = None"
    proof cases
      case 1 then show ?thesis using l(2) by simp
    next
      case 2
      then have "m1 x = None" using ih(2) by blast
      then show ?thesis using l(3) 2(1) by (auto split: if_splits)
    qed
  qed
  have o: "\<forall>x. x \<notin> set (concat (L # Ls)) \<longrightarrow> m' x = m x"
  proof (intro allI impI)
    fix x assume "x \<notin> set (concat (L # Ls))"
    then have a: "x \<notin> set L" and b: "x \<notin> set (concat Ls)" by auto
    from b ih(3) have "m' x = m1 x" by blast
    with a l(3) show "m' x = m x" by simp
  qed
  have s: "\<forall>i<length (L # Ls). \<forall>x\<in>set ((L # Ls) ! i). m' x = Some (k + i)"
  proof (intro allI impI ballI)
    fix i x assume i: "i < length (L # Ls)" and x: "x \<in> set ((L # Ls) ! i)"
    show "m' x = Some (k + i)"
    proof (cases i)
      case 0
      then have xl: "x \<in> set L" using x by simp
      then have "x \<notin> set (concat Ls)" using disj by blast
      then have "m' x = m1 x" using ih(3) by simp
      then show ?thesis using l(3) xl 0 by simp
    next
      case (Suc j)
      then show ?thesis using ih(4) i x by simp
    qed
  qed
  from d n o s show ?case by blast
qed

lemma in_concat_nth: "x \<in> set (concat xs) \<longleftrightarrow> (\<exists>i<length xs. x \<in> set (xs ! i))"
proof -
  have "x \<in> set (concat xs) \<longleftrightarrow> (\<exists>ys\<in>set xs. x \<in> set ys)" by simp
  also have "\<dots> \<longleftrightarrow> (\<exists>i<length xs. x \<in> set (xs ! i))" by (metis in_set_conv_nth)
  finally show ?thesis .
qed

lemma stage_of_char:
  assumes "assign_stages 0 layers Map.empty = Inr so"
  shows "so x = Some i \<longleftrightarrow> i < length layers \<and> x \<in> set (layers ! i)"
proof
  assume s: "so x = Some i"
  from assign_stages_ok[OF assms] have a: "\<forall>x. x \<notin> set (concat layers) \<longrightarrow> so x = None"
    and b: "\<forall>i<length layers. \<forall>x\<in>set (layers ! i). so x = Some i" by auto
  from s a have "x \<in> set (concat layers)" by auto
  then obtain j where j: "j < length layers" "x \<in> set (layers ! j)"
    unfolding in_concat_nth by blast
  with b have "so x = Some j" by blast
  with s j show "i < length layers \<and> x \<in> set (layers ! i)" by simp
next
  assume "i < length layers \<and> x \<in> set (layers ! i)"
  with assign_stages_ok[OF assms] show "so x = Some i" by auto
qed

lemma check_nbrs_ok:
  "check_nbrs so u su nb = Inr r \<Longrightarrow> (v, w) \<in> set nb \<Longrightarrow> so v = Some (su + 1)"
  by (induction nb) (auto split: option.splits if_splits)

lemma check_edges_ok:
  "check_edges so es = Inr r \<Longrightarrow> (u, nb) \<in> set es \<Longrightarrow>
   \<exists>su. so u = Some su \<and> (\<forall>(v, w)\<in>set nb. so v = Some (su + 1))"
proof (induction es)
  case Nil
  then show ?case by simp
next
  case (Cons e es)
  obtain u' nb' where e: "e = (u', nb')" by (cases e)
  from Cons.prems(1) e obtain su r' where su: "so u' = Some su"
    and c: "check_nbrs so u' su nb' = Inr r'" and rest: "check_edges so es = Inr r"
    by (auto split: option.splits sum.splits)
  show ?case
  proof (cases "(u, nb) = e")
    case True
    then show ?thesis using e su check_nbrs_ok[OF c] by auto
  next
    case False
    then show ?thesis using Cons.IH[OF rest] Cons.prems(2) by auto
  qed
qed

lemma validate_ok:
  assumes "validate_stagecoach layers edges start goal = Inr (so, fl)"
  shows "layers \<noteq> []" and "\<forall>L\<in>set layers. L \<noteq> []" and "distinct (concat layers)"
    and "\<And>x i. so x = Some i \<longleftrightarrow> i < length layers \<and> x \<in> set (layers ! i)"
    and "start \<in> set (layers ! 0)" and "goal \<in> set (last layers)"
    and "check_edges so edges = Inr ()" and "fl = concat layers"
proof -
  from assms have ne: "layers \<noteq> []" and nel: "list_all (\<lambda>L. length L > 0) layers"
    by (auto simp: validate_stagecoach_def split: if_splits)
  from assms ne nel have a: "assign_stages 0 layers Map.empty = Inr so"
    by (auto simp: validate_stagecoach_def split: if_splits sum.splits option.splits)
  from assms ne nel a have sg: "so start = Some 0" "so goal = Some (length layers - 1)"
    and ce: "check_edges so edges = Inr ()" and f: "fl = concat layers"
    by (auto simp: validate_stagecoach_def split: if_splits sum.splits option.splits)
  show "layers \<noteq> []" by (rule ne)
  show "\<forall>L\<in>set layers. L \<noteq> []" using nel by (auto simp: list_all_iff)
  show "distinct (concat layers)" using assign_stages_ok[OF a] by simp
  show "\<And>x i. so x = Some i \<longleftrightarrow> i < length layers \<and> x \<in> set (layers ! i)"
    by (rule stage_of_char[OF a])
  show "start \<in> set (layers ! 0)" using sg(1) stage_of_char[OF a] by blast
  have "goal \<in> set (layers ! (length layers - 1))" using sg(2) stage_of_char[OF a] by blast
  then show "goal \<in> set (last layers)" using ne by (simp add: last_conv_nth)
  show "check_edges so edges = Inr ()" by (rule ce)
  show "fl = concat layers" by (rule f)
qed

lemma distinct_concat_nth:
  "distinct (concat xs) \<Longrightarrow> i < length xs \<Longrightarrow> j < length xs \<Longrightarrow>
   x \<in> set (xs ! i) \<Longrightarrow> x \<in> set (xs ! j) \<Longrightarrow> i = j"
proof (induction xs arbitrary: i j)
  case Nil
  then show ?case by simp
next
  case (Cons a xs)
  show ?case
  proof (cases i)
    case 0
    show ?thesis
    proof (cases j)
      case 0
      with \<open>i = 0\<close> show ?thesis by simp
    next
      case (Suc j')
      with Cons.prems 0 have "x \<in> set a" "x \<in> set (concat xs)"
        unfolding in_concat_nth by auto
      with Cons.prems(1) show ?thesis by auto
    qed
  next
    case (Suc i')
    show ?thesis
    proof (cases j)
      case 0
      with Cons.prems Suc have "x \<in> set a" "x \<in> set (concat xs)"
        unfolding in_concat_nth by auto
      with Cons.prems(1) show ?thesis by auto
    next
      case (Suc j')
      with Cons.prems \<open>i = Suc i'\<close> Cons.IH[of i' j'] show ?thesis by simp
    qed
  qed
qed

lemma distinct_concat_layer:
  "distinct (concat xs) \<Longrightarrow> i < length xs \<Longrightarrow> distinct (xs ! i)"
  by (induction xs arbitrary: i) (auto simp: nth_Cons split: nat.splits)

subsection \<open>The backward pass keeps the state solved\<close>

lemma candidate_cong:
  "f v = f' v \<Longrightarrow> candidate opt cop edges f u v = candidate opt cop edges f' u v"
  by (simp add: candidate_def f_get_def split: option.splits)

lemma scan_inv_cong:
  assumes "\<forall>v\<in>set seen. f v = f' v"
  shows "scan_inv opt cop edges f u seen bv bvs \<longleftrightarrow> scan_inv opt cop edges f' u seen bv bvs"
proof -
  have c: "\<forall>v\<in>set seen. candidate opt cop edges f u v = candidate opt cop edges f' u v"
    using assms candidate_cong by blast
  then have "filter (ties opt cop edges f u bv) seen = filter (ties opt cop edges f' u bv) seen"
    by (intro filter_cong) (auto simp: ties_def)
  with c show ?thesis by (simp add: scan_inv_def)
qed

lemma solved_init:
  "solved opt cop layers edges goal {} [goal \<mapsto> terminal_value cop] [goal \<mapsto> []]"
  by (simp add: solved_def)

lemma solved_step:
  assumes s: "solved opt cop layers edges goal D f p"
    and nd: "u' \<notin> D" and nl: "u' \<notin> set (last layers)" and g: "goal \<in> set (last layers)"
    and t: "Suc t < length layers" and ut: "u' \<in> set (layers ! t)"
    and sup: "set (layers ! Suc t) \<subseteq> D \<union> set (last layers)"
    and sc: "scan_next opt cop (edges_get edges u') f (layers ! Suc t) = (totals, bv, bvs)"
    and ne: "bvs \<noteq> []"
  shows "solved opt cop layers edges goal (insert u' D) (f(u' \<mapsto> bv)) (p(u' \<mapsto> bvs))"
proof -
  let ?f = "f(u' \<mapsto> bv)" and ?p = "p(u' \<mapsto> bvs)"
  have ug: "u' \<noteq> goal" using nl g by auto
  have a: "?f goal = Some (terminal_value cop) \<and> ?p goal = Some []"
    using s ug by (simp add: solved_def)
  have b: "\<forall>u. u \<notin> insert u' D \<and> u \<noteq> goal \<longrightarrow> ?f u = None \<and> ?p u = None"
    using s by (simp add: solved_def)
  have same: "\<And>xs. set xs \<subseteq> D \<union> set (last layers) \<Longrightarrow> \<forall>v\<in>set xs. ?f v = f v"
    using nd nl by auto
  have c: "\<forall>u\<in>insert u' D. \<exists>t bv' bvs'. Suc t < length layers \<and> u \<in> set (layers ! t) \<and>
         set (layers ! Suc t) \<subseteq> insert u' D \<union> set (last layers) \<and>
         ?f u = Some bv' \<and> ?p u = Some bvs' \<and> bvs' \<noteq> [] \<and>
         scan_inv opt cop edges ?f u (layers ! Suc t) bv' bvs'"
  proof
    fix u assume "u \<in> insert u' D"
    then consider (new) "u = u'" | (old) "u \<in> D" "u \<noteq> u'" using nd by blast
    then show "\<exists>t bv' bvs'. Suc t < length layers \<and> u \<in> set (layers ! t) \<and>
         set (layers ! Suc t) \<subseteq> insert u' D \<union> set (last layers) \<and>
         ?f u = Some bv' \<and> ?p u = Some bvs' \<and> bvs' \<noteq> [] \<and>
         scan_inv opt cop edges ?f u (layers ! Suc t) bv' bvs'"
    proof cases
      case new
      have "scan_inv opt cop edges f u' (layers ! Suc t) bv bvs"
        using sc by (rule scan_next_inv)
      then have "scan_inv opt cop edges ?f u' (layers ! Suc t) bv bvs"
        using scan_inv_cong[OF same[OF sup]] by blast
      then show ?thesis using new t ut sup ne
        by (intro exI[of _ t] exI[of _ bv] exI[of _ bvs]) auto
    next
      case old
      from s old(1) obtain t0 b0 s0 where o: "Suc t0 < length layers" "u \<in> set (layers ! t0)"
        "set (layers ! Suc t0) \<subseteq> D \<union> set (last layers)"
        "f u = Some b0" "p u = Some s0" "s0 \<noteq> []"
        "scan_inv opt cop edges f u (layers ! Suc t0) b0 s0"
        unfolding solved_def by blast
      from o(7) have "scan_inv opt cop edges ?f u (layers ! Suc t0) b0 s0"
        using scan_inv_cong[OF same[OF o(3)]] by blast
      then show ?thesis using o old(2)
        by (intro exI[of _ t0] exI[of _ b0] exI[of _ s0]) auto
    qed
  qed
  from a b c show ?thesis unfolding solved_def by blast
qed

lemma process_nodes_solved:
  assumes "solved opt cop layers edges goal D f p"
    and "distinct us" and "set us \<inter> (D \<union> set (last layers)) = {}"
    and "goal \<in> set (last layers)" and "Suc t < length layers"
    and "set us \<subseteq> set (layers ! t)"
    and "set (layers ! Suc t) \<subseteq> D \<union> set (last layers)"
    and "process_nodes opt cop edges t (layers ! Suc t) us (f, p, rws) = Inr (f', p', rws')"
  shows "solved opt cop layers edges goal (D \<union> set us) f' p'"
  using assms
proof (induction us arbitrary: D f p rws)
  case Nil
  then show ?case by simp
next
  case (Cons u us)
  obtain totals bv bvs where sc:
    "scan_next opt cop (edges_get edges u) f (layers ! Suc t) = (totals, bv, bvs)"
    by (metis prod_cases3)
  from Cons.prems(8) sc have ne: "bvs \<noteq> []" by (auto split: if_splits)
  from Cons.prems(8) sc ne obtain rws1 where rest:
    "process_nodes opt cop edges t (layers ! Suc t) us (f(u \<mapsto> bv), p(u \<mapsto> bvs), rws1) = Inr (f', p', rws')"
    by auto
  have s1: "solved opt cop layers edges goal (insert u D) (f(u \<mapsto> bv)) (p(u \<mapsto> bvs))"
    using Cons.prems by (intro solved_step[OF Cons.prems(1) _ _ Cons.prems(4,5) _ Cons.prems(7) sc ne]) auto
  have "solved opt cop layers edges goal (insert u D \<union> set us) f' p'"
    using Cons.prems by (intro Cons.IH[OF s1 _ _ Cons.prems(4,5) _ _ rest]) auto
  then show ?case by simp
qed

lemma stages_loop_append:
  "stages_loop opt cop layers edges (xs @ ys) st =
     (case stages_loop opt cop layers edges xs st of
        Inl e \<Rightarrow> Inl e
      | Inr st' \<Rightarrow> stages_loop opt cop layers edges ys st')"
  by (induction xs arbitrary: st) (auto split: sum.splits)

lemma rev_upt_down: "t < K \<Longrightarrow> rev [t..<K] = rev [Suc t..<K] @ [t]"
  by (simp add: upt_conv_Cons)

lemma done_nodes_top: "done_nodes layers (length layers - 1) = {}"
  by (simp add: done_nodes_def)

lemma done_nodes_step:
  "t < length layers - 1 \<Longrightarrow> done_nodes layers t = done_nodes layers (Suc t) \<union> set (layers ! t)"
proof -
  assume "t < length layers - 1"
  then have "{t..<length layers - 1} = insert t {Suc t..<length layers - 1}" by auto
  then show ?thesis by (auto simp: done_nodes_def)
qed

lemma next_layer_support:
  assumes "layers \<noteq> []" and "t < length layers - 1"
  shows "set (layers ! Suc t) \<subseteq> done_nodes layers (Suc t) \<union> set (last layers)"
proof (cases "Suc t = length layers - 1")
  case True
  then show ?thesis using assms by (simp add: last_conv_nth)
next
  case False
  with assms have "Suc t \<in> {Suc t..<length layers - 1}" by auto
  then show ?thesis unfolding done_nodes_def by blast
qed

lemma layer_fresh:
  assumes d: "distinct (concat layers)" and t: "t < length layers - 1"
  shows "set (layers ! t) \<inter> (done_nodes layers (Suc t) \<union> set (last layers)) = {}"
proof (rule ccontr)
  assume "set (layers ! t) \<inter> (done_nodes layers (Suc t) \<union> set (last layers)) \<noteq> {}"
  then obtain x where x: "x \<in> set (layers ! t)"
    and y: "x \<in> done_nodes layers (Suc t) \<or> x \<in> set (last layers)" by blast
  from t have ne: "layers \<noteq> []" by auto
  from y obtain j where j: "j < length layers" "t < j" "x \<in> set (layers ! j)"
  proof
    assume "x \<in> done_nodes layers (Suc t)"
    then obtain j where "j \<in> {Suc t..<length layers - 1}" "x \<in> set (layers ! j)"
      unfolding done_nodes_def by blast
    then show ?thesis using that[of j] by auto
  next
    assume "x \<in> set (last layers)"
    then show ?thesis using that[of "length layers - 1"] t ne by (simp add: last_conv_nth)
  qed
  have "t < length layers" using t by simp
  from distinct_concat_nth[OF d this j(1) x j(3)] j(2) show False by simp
qed

lemma stages_loop_solved:
  assumes d: "distinct (concat layers)" and ne: "layers \<noteq> []" and g: "goal \<in> set (last layers)"
  shows "n \<le> length layers - 1 \<Longrightarrow>
    stages_loop opt cop layers edges (rev [length layers - 1 - n..<length layers - 1])
       ([goal \<mapsto> terminal_value cop], [goal \<mapsto> []], []) = Inr (f, p, tabs) \<Longrightarrow>
    solved opt cop layers edges goal (done_nodes layers (length layers - 1 - n)) f p"
proof (induction n arbitrary: f p tabs)
  case 0
  from "0.prems"(2) have "f = [goal \<mapsto> terminal_value cop]" "p = [goal \<mapsto> []]" by auto
  then show ?case using solved_init[of opt cop layers edges goal] done_nodes_top[of layers]
    by (simp only: diff_zero)
next
  case (Suc n)
  let ?K = "length layers - 1"
  let ?t = "?K - Suc n"
  have tK: "?t < ?K" using Suc.prems(1) by simp
  have st: "Suc ?t = ?K - n" using Suc.prems(1) by simp
  have r: "rev [?t..<?K] = rev [?K - n..<?K] @ [?t]"
    using rev_upt_down[OF tK] st by simp
  from Suc.prems(2) obtain f1 p1 tabs1 where
    first: "stages_loop opt cop layers edges (rev [?K - n..<?K])
       ([goal \<mapsto> terminal_value cop], [goal \<mapsto> []], []) = Inr (f1, p1, tabs1)"
    and last: "process_stage opt cop layers edges ?t (f1, p1, tabs1) = Inr (f, p, tabs)"
    unfolding r stages_loop_append by (auto split: sum.splits)
  have s1: "solved opt cop layers edges goal (done_nodes layers (Suc ?t)) f1 p1"
    using Suc.IH[OF _ first] Suc.prems(1) st by simp
  from last obtain rws where pn:
    "process_nodes opt cop edges ?t (layers ! Suc ?t) (layers ! ?t) (f1, p1, []) = Inr (f, p, rws)"
    by (auto simp: process_stage_def split: sum.splits)
  have "solved opt cop layers edges goal (done_nodes layers (Suc ?t) \<union> set (layers ! ?t)) f p"
  proof (rule process_nodes_solved[OF s1 _ _ g _ _ _ pn])
    show "distinct (layers ! ?t)" using distinct_concat_layer[OF d] tK by simp
    show "set (layers ! ?t) \<inter> (done_nodes layers (Suc ?t) \<union> set (last layers)) = {}"
      by (rule layer_fresh[OF d tK])
    show "Suc ?t < length layers" using tK by simp
    show "set (layers ! ?t) \<subseteq> set (layers ! ?t)" by simp
    show "set (layers ! Suc ?t) \<subseteq> done_nodes layers (Suc ?t) \<union> set (last layers)"
      by (rule next_layer_support[OF ne tK])
  qed
  then show ?case using done_nodes_step[OF tK] by simp
qed

subsection \<open>What a returned result is made of\<close>

lemma solve_InrD:
  assumes "solve_stagecoach_dp layers edges start goal opt cop = Some (Inr r)"
  shows "\<exists>so fl. validate_stagecoach layers edges start goal = Inr (so, fl)"
    and "stages_loop opt cop layers edges (rev [0..<length layers - 1])
           ([goal \<mapsto> terminal_value cop], [goal \<mapsto> []], []) = Inr (f_star r, policy r, tables r)"
    and "walk (policy r) goal start [start] = Some (Inr (path r))"
    and "f_star r start = Some (optimal_cost r)"
  using assms
  by (auto simp: solve_stagecoach_dp_def split: if_splits sum.splits option.splits prod.splits)

lemma stages_loop_solved_all:
  assumes "validate_stagecoach layers edges start goal = Inr (so, fl)"
    and "stages_loop opt cop layers edges (rev [0..<length layers - 1])
           ([goal \<mapsto> terminal_value cop], [goal \<mapsto> []], []) = Inr (f, p, tabs)"
  shows "solved opt cop layers edges goal (done_nodes layers 0) f p"
  using stages_loop_solved[OF validate_ok(3)[OF assms(1)] validate_ok(1)[OF assms(1)]
      validate_ok(6)[OF assms(1)], of "length layers - 1" opt cop edges f p tabs] assms(2)
  by simp

lemma solve_solved:
  assumes "solve_stagecoach_dp layers edges start goal opt cop = Some (Inr r)"
  shows "solved opt cop layers edges goal (done_nodes layers 0) (f_star r) (policy r)"
  using solve_InrD(1,2)[OF assms] stages_loop_solved_all by blast

lemma done_not_last:
  assumes "distinct (concat layers)" and "x \<in> done_nodes layers 0"
  shows "x \<notin> set (last layers)"
proof -
  from assms(2) obtain t where t: "t < length layers - 1" "x \<in> set (layers ! t)"
    by (auto simp: done_nodes_def)
  with layer_fresh[OF assms(1) t(1)] show ?thesis by blast
qed

lemma in_done:
  "t < length layers - 1 \<Longrightarrow> x \<in> set (layers ! t) \<Longrightarrow> x \<in> done_nodes layers 0"
  by (auto simp: done_nodes_def)

text \<open>The entry of a processed node, read off \<open>solved\<close> with the stage made definite.\<close>

lemma solved_entry:
  assumes s: "solved opt cop layers edges goal (done_nodes layers 0) f p"
    and d: "distinct (concat layers)"
    and t: "t < length layers - 1" and u: "u \<in> set (layers ! t)"
  shows "\<exists>bv bvs. f u = Some bv \<and> p u = Some bvs \<and> bvs \<noteq> [] \<and>
           scan_inv opt cop edges f u (layers ! Suc t) bv bvs"
proof -
  from in_done[OF t u] s obtain t0 bv bvs where o: "Suc t0 < length layers" "u \<in> set (layers ! t0)"
    "f u = Some bv" "p u = Some bvs" "bvs \<noteq> []"
    "scan_inv opt cop edges f u (layers ! Suc t0) bv bvs"
    unfolding solved_def by blast
  have "t0 = t" using distinct_concat_nth[OF d _ _ o(2) u] o(1) t by simp
  with o show ?thesis by blast
qed

lemma solved_unprocessed:
  assumes s: "solved opt cop layers edges goal (done_nodes layers 0) f p"
    and d: "distinct (concat layers)"
    and u: "u \<in> set (last layers)" "u \<noteq> goal"
  shows "f u = None \<and> p u = None"
proof -
  have "u \<notin> done_nodes layers 0" using done_not_last[OF d] u(1) by blast
  with s u(2) show ?thesis unfolding solved_def by blast
qed

subsection \<open>The reconstruction walk\<close>

lemma walk_layered:
  assumes s: "solved opt cop layers edges goal (done_nodes layers 0) f p"
    and d: "distinct (concat layers)" and ne: "layers \<noteq> []"
  shows "n = length layers - 1 - i \<Longrightarrow> i < length layers \<Longrightarrow> u \<in> set (layers ! i) \<Longrightarrow>
    (\<exists>sfx. walk p goal u pth = Some (Inr (pth @ sfx)) \<and> policy_chain p goal u sfx) \<or>
    (\<exists>x. walk p goal u pth = Some (Inl (NoPath x)) \<and> x \<in> set (last layers) \<and> x \<noteq> goal)"
proof (induction n arbitrary: i u pth)
  case 0
  then have il: "i = length layers - 1" by simp
  then have ul: "u \<in> set (last layers)" using "0.prems"(3) ne by (simp add: last_conv_nth)
  show ?case
  proof (cases "u = goal")
    case True
    then have "walk p goal u pth = Some (Inr (pth @ []))" by (simp add: walk.simps)
    moreover have "policy_chain p goal u []" using True by simp
    ultimately show ?thesis by blast
  next
    case False
    with solved_unprocessed[OF s d ul] have "walk p goal u pth = Some (Inl (NoPath u))"
      by (subst walk.simps) simp
    with ul False show ?thesis by blast
  qed
next
  case (Suc n)
  then have t: "i < length layers - 1" by simp
  show ?case
  proof (cases "u = goal")
    case True
    then have "walk p goal u pth = Some (Inr (pth @ []))" by (simp add: walk.simps)
    moreover have "policy_chain p goal u []" using True by simp
    ultimately show ?thesis by blast
  next
    case False
    from solved_entry[OF s d t Suc.prems(3)] obtain bv bvs where e: "p u = Some bvs" "bvs \<noteq> []"
      "scan_inv opt cop edges f u (layers ! Suc i) bv bvs" by blast
    then obtain v vs where bvs: "bvs = v # vs" by (cases bvs) auto
    have "set bvs \<subseteq> set (layers ! Suc i)" using e(3) by (auto simp: scan_inv_def)
    then have vi: "v \<in> set (layers ! Suc i)" using bvs by simp
    have w: "walk p goal u pth = walk p goal v (pth @ [v])"
      using False e(1) bvs by (subst walk.simps) simp
    have "n = length layers - 1 - Suc i" "Suc i < length layers" using Suc.prems t by auto
    from Suc.IH[OF this vi, of "pth @ [v]"] consider
      (ok) sfx where "walk p goal v (pth @ [v]) = Some (Inr ((pth @ [v]) @ sfx))"
        "policy_chain p goal v sfx"
      | (bad) x where "walk p goal v (pth @ [v]) = Some (Inl (NoPath x))"
        "x \<in> set (last layers)" "x \<noteq> goal" by blast
    then show ?thesis
    proof cases
      case ok
      have "policy_chain p goal u (v # sfx)" using False e(1) bvs ok(2) by simp
      moreover have "walk p goal u pth = Some (Inr (pth @ (v # sfx)))" using w ok(1) by simp
      ultimately show ?thesis by blast
    next
      case bad
      then show ?thesis using w by auto
    qed
  qed
qed

lemma walk_from_start:
  assumes v: "validate_stagecoach layers edges start goal = Inr (so, fl)"
    and l: "stages_loop opt cop layers edges (rev [0..<length layers - 1])
           ([goal \<mapsto> terminal_value cop], [goal \<mapsto> []], []) = Inr (f, p, tabs)"
  shows "(\<exists>sfx. walk p goal start [start] = Some (Inr (start # sfx)) \<and> policy_chain p goal start sfx) \<or>
    (\<exists>x. walk p goal start [start] = Some (Inl (NoPath x)) \<and> x \<in> set (last layers) \<and> x \<noteq> goal)"
proof -
  have s: "solved opt cop layers edges goal (done_nodes layers 0) f p"
    by (rule stages_loop_solved_all[OF v l])
  have "0 < length layers" using validate_ok(1)[OF v] by simp
  from walk_layered[OF s validate_ok(3)[OF v] validate_ok(1)[OF v] refl this validate_ok(5)[OF v],
      where pth = "[start]"]
  show ?thesis by simp
qed

subsection \<open>Which errors come from where\<close>

lemma assign_layer_err: "assign_layer k us m = Inl e \<Longrightarrow> is_structure_error e"
  by (induction us arbitrary: m) (auto split: if_splits)

lemma assign_stages_err: "assign_stages k Ls m = Inl e \<Longrightarrow> is_structure_error e"
  by (induction Ls arbitrary: k m) (auto split: sum.splits dest: assign_layer_err)

lemma check_nbrs_err: "check_nbrs so u su nb = Inl e \<Longrightarrow> is_structure_error e"
  by (induction nb) (auto split: option.splits if_splits)

lemma check_edges_err: "check_edges so es = Inl e \<Longrightarrow> is_structure_error e"
  by (induction es) (auto split: option.splits sum.splits dest: check_nbrs_err)

lemma validate_err: "validate_stagecoach layers edges start goal = Inl e \<Longrightarrow> is_structure_error e"
  by (auto simp: validate_stagecoach_def split: if_splits sum.splits option.splits
      dest: assign_stages_err check_edges_err)

lemma process_nodes_err:
  "process_nodes opt cop edges t nl us (f, p, rws) = Inl e \<Longrightarrow> \<exists>u\<in>set us. e = DeadEnd u (t + 1)"
  by (induction us arbitrary: f p rws) (auto split: prod.splits if_splits)

lemma stages_loop_err:
  "stages_loop opt cop layers edges ts st = Inl e \<Longrightarrow>
   \<exists>t\<in>set ts. \<exists>u\<in>set (layers ! t). e = DeadEnd u (t + 1)"
proof (induction ts arbitrary: st)
  case Nil
  then show ?case by simp
next
  case (Cons t ts)
  obtain f p tabs where st: "st = (f, p, tabs)" by (cases st)
  show ?case
  proof (cases "process_stage opt cop layers edges t st")
    case (Inl e')
    with Cons.prems have "e' = e" by simp
    with Inl st have "process_nodes opt cop edges t (layers ! (t + 1)) (layers ! t) (f, p, []) = Inl e"
      by (auto simp: process_stage_def split: sum.splits)
    from process_nodes_err[OF this] show ?thesis by auto
  next
    case (Inr st')
    with Cons.prems have "stages_loop opt cop layers edges ts st' = Inl e" by simp
    from Cons.IH[OF this] show ?thesis by auto
  qed
qed

lemma solve_bad_opt:
  "opt \<noteq> ''min'' \<and> opt \<noteq> ''max'' \<Longrightarrow>
   solve_stagecoach_dp layers edges start goal opt cop = Some (Inl BadOptMode)"
  by (simp add: solve_stagecoach_dp_def)

lemma solve_bad_op:
  "\<not> (opt \<noteq> ''min'' \<and> opt \<noteq> ''max'') \<Longrightarrow> cop \<noteq> ''+'' \<and> cop \<noteq> ''*'' \<Longrightarrow>
   solve_stagecoach_dp layers edges start goal opt cop = Some (Inl BadCombineOp)"
  by (simp add: solve_stagecoach_dp_def)

lemma solve_invalid:
  "\<not> (opt \<noteq> ''min'' \<and> opt \<noteq> ''max'') \<Longrightarrow> \<not> (cop \<noteq> ''+'' \<and> cop \<noteq> ''*'') \<Longrightarrow>
   validate_stagecoach layers edges start goal = Inl e \<Longrightarrow>
   solve_stagecoach_dp layers edges start goal opt cop = Some (Inl e)"
  by (auto simp: solve_stagecoach_dp_def)

lemma solve_dead:
  "\<not> (opt \<noteq> ''min'' \<and> opt \<noteq> ''max'') \<Longrightarrow> \<not> (cop \<noteq> ''+'' \<and> cop \<noteq> ''*'') \<Longrightarrow>
   validate_stagecoach layers edges start goal = Inr x \<Longrightarrow>
   stages_loop opt cop layers edges (rev [0..<length layers - 1])
           ([goal \<mapsto> terminal_value cop], [goal \<mapsto> []], []) = Inl e \<Longrightarrow>
   solve_stagecoach_dp layers edges start goal opt cop = Some (Inl e)"
  by (auto simp: solve_stagecoach_dp_def)

lemma solve_walk:
  "\<not> (opt \<noteq> ''min'' \<and> opt \<noteq> ''max'') \<Longrightarrow> \<not> (cop \<noteq> ''+'' \<and> cop \<noteq> ''*'') \<Longrightarrow>
   validate_stagecoach layers edges start goal = Inr x \<Longrightarrow>
   stages_loop opt cop layers edges (rev [0..<length layers - 1])
           ([goal \<mapsto> terminal_value cop], [goal \<mapsto> []], []) = Inr (f, p, tabs) \<Longrightarrow>
   solve_stagecoach_dp layers edges start goal opt cop =
     (case walk p goal start [start] of
        None \<Rightarrow> None
      | Some (Inl e) \<Rightarrow> Some (Inl e)
      | Some (Inr pth) \<Rightarrow>
          (case f start of
             None \<Rightarrow> Some (Inl (KeyError start))
           | Some c \<Rightarrow> Some (Inr \<lparr>optimal_cost = c, path = pth, tables = tabs,
                                   f_star = f, policy = p\<rparr>)))"
  by (auto simp: solve_stagecoach_dp_def)

text \<open>Every run of the solver ends in one of five ways.\<close>

lemma solve_outcomes:
  obtains (bad_opt) "opt \<noteq> ''min'' \<and> opt \<noteq> ''max''"
      "solve_stagecoach_dp layers edges start goal opt cop = Some (Inl BadOptMode)"
  | (bad_op) "cop \<noteq> ''+'' \<and> cop \<noteq> ''*''"
      "solve_stagecoach_dp layers edges start goal opt cop = Some (Inl BadCombineOp)"
  | (invalid) e where "validate_stagecoach layers edges start goal = Inl e" "is_structure_error e"
      "solve_stagecoach_dp layers edges start goal opt cop = Some (Inl e)"
  | (dead) so fl u t where "validate_stagecoach layers edges start goal = Inr (so, fl)"
      "t < length layers - 1" "u \<in> set (layers ! t)"
      "solve_stagecoach_dp layers edges start goal opt cop = Some (Inl (DeadEnd u (t + 1)))"
  | (walked) so fl f p tabs where "validate_stagecoach layers edges start goal = Inr (so, fl)"
      "stages_loop opt cop layers edges (rev [0..<length layers - 1])
           ([goal \<mapsto> terminal_value cop], [goal \<mapsto> []], []) = Inr (f, p, tabs)"
      "solve_stagecoach_dp layers edges start goal opt cop =
        (case walk p goal start [start] of
           None \<Rightarrow> None
         | Some (Inl e) \<Rightarrow> Some (Inl e)
         | Some (Inr pth) \<Rightarrow>
            (case f start of
               None \<Rightarrow> Some (Inl (KeyError start))
             | Some c \<Rightarrow> Some (Inr \<lparr>optimal_cost = c, path = pth, tables = tabs,
                                   f_star = f, policy = p\<rparr>)))"
proof (cases "opt \<noteq> ''min'' \<and> opt \<noteq> ''max''")
  case True
  then show ?thesis using bad_opt solve_bad_opt by blast
next
  case o: False
  show ?thesis
  proof (cases "cop \<noteq> ''+'' \<and> cop \<noteq> ''*''")
    case True
    then show ?thesis using bad_op solve_bad_op[OF o] by blast
  next
    case c: False
    show ?thesis
    proof (cases "validate_stagecoach layers edges start goal")
      case (Inl e)
      then show ?thesis using invalid[of e] solve_invalid[OF o c] validate_err by blast
    next
      case (Inr x)
      obtain so fl where x: "x = (so, fl)" by (cases x)
      show ?thesis
      proof (cases "stages_loop opt cop layers edges (rev [0..<length layers - 1])
           ([goal \<mapsto> terminal_value cop], [goal \<mapsto> []], [])")
        case (Inl e)
        from stages_loop_err[OF Inl] obtain t u where
          "t < length layers - 1" "u \<in> set (layers ! t)" "e = DeadEnd u (t + 1)" by auto
        then show ?thesis using dead[of so fl t u] solve_dead[OF o c Inr Inl] Inr x by blast
      next
        case l: (Inr y)
        obtain f p tabs where y: "y = (f, p, tabs)" by (cases y)
        show ?thesis using walked[of so fl f p tabs] solve_walk[OF o c Inr l[unfolded y]] Inr x l y
          by blast
      qed
    qed
  qed
qed

lemma solve_total: "solve_stagecoach_dp layers edges start goal opt cop \<noteq> None"
proof (cases rule: solve_outcomes[where opt = opt and cop = cop and layers = layers and edges = edges and start = start and goal = goal])
  case (walked so fl f p tabs)
  from walk_from_start[OF walked(1,2)] obtain w where "walk p goal start [start] = Some w"
    by blast
  then show ?thesis using walked(3) by (auto split: sum.splits option.splits)
qed simp_all

lemma solve_NoPathD:
  assumes "solve_stagecoach_dp layers edges start goal opt cop = Some (Inl (NoPath u))"
  shows "u \<in> set (last layers) \<and> u \<noteq> goal"
proof (cases rule: solve_outcomes[where opt = opt and cop = cop and layers = layers and edges = edges and start = start and goal = goal])
  case (walked so fl f p tabs)
  from assms walked(3) have "walk p goal start [start] = Some (Inl (NoPath u))"
    by (auto split: sum.splits option.splits)
  with walk_from_start[OF walked(1,2)] show ?thesis by auto
qed (use assms in auto)

section \<open>The claims\<close>

subsection \<open>Reading a computed result\<close>

lemma returned:
  "map_option (map_sum id g) x = Some (Inr c) \<Longrightarrow> \<exists>r. x = Some (Inr r) \<and> g r = c"
  by (cases x; cases "the x") auto


lemma ex_run:
  "map_option (map_sum id (\<lambda>r. (optimal_cost r, path r, map title_stage (tables r),
        f_star r ''T'', policy r ''T'')))
     (solve_stagecoach_dp ex_layers ex_edges ''S'' ''T'' ''min'' ''+'')
   = Some (Inr (Fin 5, [''S'', ''A'', ''D'', ''T''], [3, 2, 1], Some (Fin 0), Some []))"
  by code_simp

lemma ex_policy:
  "map_option (map_sum id (\<lambda>r. (policy r ''S'', f_star r ''A'')))
     (solve_stagecoach_dp ex_layers ex_edges ''S'' ''T'' ''min'' ''+'')
   = Some (Inr (Some [''A''], Some (Fin 3)))"
  by code_simp

lemma stray_run:
  "map_option (map_sum id (\<lambda>r. (policy r ''B'', f_star r ''X'', f_star r ''B'', optimal_cost r)))
     (solve_stagecoach_dp stray_layers stray_edges ''S'' ''T'' ''min'' ''+'')
   = Some (Inr (Some [''X''], None, Some PInf, Fin 2))"
  by code_simp

lemma failed:
  "map_option (map_sum id g) x = Some (Inl e) \<Longrightarrow> x = Some (Inl e)"
  by (cases x; cases "the x") auto



text \<open>
  Claim C6.  On the example of the specification (layers S | A, B | C, D | T, the five
  weighted edge lists, start S, goal T, mode \<open>min\<close>, operator \<open>+\<close>) the solver returns a
  result whose optimal cost is 5 and whose representative path is S, A, D, T.
\<close>

theorem example_cost_and_path:
  "\<exists>r. solve_stagecoach_dp ex_layers ex_edges ''S'' ''T'' ''min'' ''+'' = Some (Inr r) \<and>
       optimal_cost r = Fin 5 \<and> path r = [''S'', ''A'', ''D'', ''T'']"
  using returned[OF ex_run] by auto

text \<open>
  Claim C7.  In every result the solver returns, \<open>f_star[goal]\<close> is the identity of the
  combine operator (0 for \<open>+\<close>, 1 for \<open>*\<close>) and \<open>policy[goal]\<close> is the empty list.
\<close>

theorem goal_keeps_terminal_value:
  assumes "solve_stagecoach_dp layers edges start goal opt_mode combine_op = Some (Inr r)"
  shows "f_star r goal = Some (if combine_op = ''+'' then Fin 0 else Fin 1) \<and> policy r goal = Some []"
  using solve_solved[OF assms] by (simp add: solved_def terminal_value_def)

theorem goal_keeps_terminal_value_witness:
  "\<exists>r. solve_stagecoach_dp ex_layers ex_edges ''S'' ''T'' ''min'' ''+'' = Some (Inr r) \<and>
       f_star r ''T'' = Some (Fin 0) \<and> policy r ''T'' = Some []"
proof -
  from returned[OF ex_run] obtain r where
    r: "solve_stagecoach_dp ex_layers ex_edges ''S'' ''T'' ''min'' ''+'' = Some (Inr r)" by blast
  from goal_keeps_terminal_value[OF r] r show ?thesis by auto
qed

text \<open>
  Claim C1, as amended.  In every result the solver returns, for every node \<open>u\<close> with a
  policy entry and every \<open>v\<close> in \<open>policy[u]\<close>, \<open>v\<close> is a neighbour of \<open>u\<close> and
  \<open>combine(weight(u,v), f_star.get(v, sentinel)) == f_star[u]\<close> holds with Python's
  float equality, the sentinel being the one of the mode; so the equation of the claim
  holds whenever \<open>v\<close> has an entry in \<open>f_star\<close>.  The claim as written reads
  \<open>f_star[v]\<close>, and a last-stage node other than the goal has no such entry although it
  can stand in a policy list: the counterexample below.
\<close>

theorem policy_entries_tie:
  assumes "solve_stagecoach_dp layers edges start goal opt_mode combine_op = Some (Inr r)"
    and "policy r u = Some vs" and "v \<in> set vs"
  shows "\<exists>w fu. map_of (edges_get edges u) v = Some w \<and> f_star r u = Some fu \<and>
           feq (combine combine_op w (f_get (f_star r) v (agg_init opt_mode))) fu \<and>
           (\<forall>fv. f_star r v = Some fv \<longrightarrow> feq (combine combine_op w fv) fu)"
proof -
  have s: "solved opt_mode combine_op layers edges goal (done_nodes layers 0) (f_star r) (policy r)"
    by (rule solve_solved[OF assms(1)])
  have "u \<noteq> goal" using s assms(2,3) by (auto simp: solved_def)
  moreover have "u \<in> done_nodes layers 0 \<or> u = goal"
    using s assms(2) unfolding solved_def by (metis option.distinct(1))
  ultimately have "u \<in> done_nodes layers 0" by simp
  with s assms(2) obtain t bv where o: "f_star r u = Some bv"
    "scan_inv opt_mode combine_op edges (f_star r) u (layers ! Suc t) bv vs"
    unfolding solved_def by fastforce
  from o(2) assms(3) have "ties opt_mode combine_op edges (f_star r) u bv v"
    by (auto simp: scan_inv_def)
  then obtain w where w: "map_of (edges_get edges u) v = Some w"
    "feq (combine combine_op w (f_get (f_star r) v (agg_init opt_mode))) bv"
    by (auto simp: ties_def candidate_def split: option.splits)
  from w(2) have "\<forall>fv. f_star r v = Some fv \<longrightarrow> feq (combine combine_op w fv) bv"
    by (auto simp: f_get_def)
  with w o(1) show ?thesis by blast
qed

theorem policy_entries_tie_witness:
  "\<exists>r. solve_stagecoach_dp ex_layers ex_edges ''S'' ''T'' ''min'' ''+'' = Some (Inr r) \<and>
       policy r ''S'' = Some [''A''] \<and> map_of (edges_get ex_edges ''S'') ''A'' = Some (Fin 2) \<and>
       f_star r ''S'' = Some (Fin 5) \<and> f_star r ''A'' = Some (Fin 3) \<and>
       feq (combine ''+'' (Fin 2) (Fin 3)) (Fin 5)"
proof -
  from returned[OF ex_run] obtain r where
    r: "solve_stagecoach_dp ex_layers ex_edges ''S'' ''T'' ''min'' ''+'' = Some (Inr r)"
    and c: "optimal_cost r = Fin 5" by auto
  from returned[OF ex_policy] r have p: "policy r ''S'' = Some [''A'']"
    and a: "f_star r ''A'' = Some (Fin 3)" by auto
  have e: "map_of (edges_get ex_edges ''S'') ''A'' = Some (Fin 2)"
    by (simp add: edges_get_def ex_edges_def)
  from policy_entries_tie[OF r p, of "''A''"] e a
  have "\<exists>fu. f_star r ''S'' = Some fu \<and> feq (combine ''+'' (Fin 2) (Fin 3)) fu" by auto
  then have "f_star r ''S'' = Some (Fin 5) \<and> feq (combine ''+'' (Fin 2) (Fin 3)) (Fin 5)"
    by (auto simp: feq_iff combine_def)
  with r p e a show ?thesis by blast
qed

theorem policy_entry_without_value_counterexample:
  "\<exists>r. solve_stagecoach_dp stray_layers stray_edges ''S'' ''T'' ''min'' ''+'' = Some (Inr r) \<and>
       policy r ''B'' = Some [''X''] \<and> f_star r ''X'' = None"
  using returned[OF stray_run] by auto




subsection \<open>The order of the stage tables\<close>

lemma process_nodes_rows:
  "process_nodes opt cop edges t nl us (f, p, rws) = Inr (f', p', rws') \<Longrightarrow>
   map row_node rws' = map row_node rws @ us"
proof (induction us arbitrary: f p rws)
  case Nil
  then show ?case by simp
next
  case (Cons u us)
  obtain totals bv bvs where sc: "scan_next opt cop (edges_get edges u) f nl = (totals, bv, bvs)"
    by (metis prod_cases3)
  define rw where "rw = \<lparr>row_node = u,
      row_totals = map (\<lambda>x. case x of None \<Rightarrow> Blank | Some y \<Rightarrow> pretty y) totals,
      row_best = pretty bv, row_next = join_comma bvs\<rparr>"
  have "row_node rw = u" by (simp add: rw_def)
  moreover from Cons.prems sc have
    "process_nodes opt cop edges t nl us (f(u \<mapsto> bv), p(u \<mapsto> bvs), rws @ [rw]) = Inr (f', p', rws')"
    by (auto simp: rw_def split: if_splits)
  ultimately have "row_node rw = u"
    "process_nodes opt cop edges t nl us (f(u \<mapsto> bv), p(u \<mapsto> bvs), rws @ [rw]) = Inr (f', p', rws')"
    by blast+
  from Cons.IH[OF this(2)] this(1) show ?case by simp
qed

lemma process_stage_tabs:
  "process_stage opt cop layers edges t (f, p, tabs) = Inr (f', p', tabs') \<Longrightarrow>
   map (\<lambda>tb. (title_stage tb, map row_node (table_rows tb))) tabs' =
   map (\<lambda>tb. (title_stage tb, map row_node (table_rows tb))) tabs @ [(t + 1, layers ! t)]"
  by (auto simp: process_stage_def split: sum.splits dest: process_nodes_rows)

lemma stages_loop_tabs:
  "stages_loop opt cop layers edges ts (f, p, tabs) = Inr (f', p', tabs') \<Longrightarrow>
   map (\<lambda>tb. (title_stage tb, map row_node (table_rows tb))) tabs' =
   map (\<lambda>tb. (title_stage tb, map row_node (table_rows tb))) tabs @ map (\<lambda>t. (t + 1, layers ! t)) ts"
proof (induction ts arbitrary: f p tabs)
  case Nil
  then show ?case by simp
next
  case (Cons t ts)
  from Cons.prems obtain f1 p1 tabs1 where
    a: "process_stage opt cop layers edges t (f, p, tabs) = Inr (f1, p1, tabs1)"
    and b: "stages_loop opt cop layers edges ts (f1, p1, tabs1) = Inr (f', p', tabs')"
    by (auto split: sum.splits)
  from Cons.IH[OF b] process_stage_tabs[OF a] show ?case by simp
qed

lemma ex_tables:
  "map_option (map_sum id (\<lambda>r. map (\<lambda>tb. (title_stage tb, map row_node (table_rows tb))) (tables r)))
     (solve_stagecoach_dp ex_layers ex_edges ''S'' ''T'' ''min'' ''+'')
   = Some (Inr [(3, [''C'', ''D'']), (2, [''A'', ''B'']), (1, [''S''])])"
  by code_simp

text \<open>
  Claim C2, as amended.  The tables of a returned result stand in the order in which the
  stages were processed, backward: the table titled with stage number \<open>K\<close> (the rows of
  the nodes of stage \<open>K-1\<close>) first, the table titled 1 (the rows of the nodes of stage 0)
  last.  The solver does not reverse the list; the application reverses it for display.
\<close>

theorem tables_in_processing_order:
  assumes "solve_stagecoach_dp layers edges start goal opt_mode combine_op = Some (Inr r)"
  shows "map (\<lambda>tb. (title_stage tb, map row_node (table_rows tb))) (tables r) =
         map (\<lambda>t. (t + 1, layers ! t)) (rev [0..<length layers - 1])"
  using stages_loop_tabs[OF solve_InrD(2)[OF assms]] by simp

theorem tables_in_processing_order_witness:
  "\<exists>r. solve_stagecoach_dp ex_layers ex_edges ''S'' ''T'' ''min'' ''+'' = Some (Inr r) \<and>
       map (\<lambda>tb. (title_stage tb, map row_node (table_rows tb))) (tables r) =
       [(3, ex_layers ! 2), (2, ex_layers ! 1), (1, ex_layers ! 0)]"
proof -
  from returned[OF ex_run] obtain r where
    r: "solve_stagecoach_dp ex_layers ex_edges ''S'' ''T'' ''min'' ''+'' = Some (Inr r)" by blast
  have "map (\<lambda>t. (t + 1, ex_layers ! t)) (rev [0..<length ex_layers - 1]) =
        [(3, ex_layers ! 2), (2, ex_layers ! 1), (1, ex_layers ! 0)]"
    by code_simp
  with tables_in_processing_order[OF r] r show ?thesis by auto
qed

theorem tables_backward_counterexample:
  "\<exists>r. solve_stagecoach_dp ex_layers ex_edges ''S'' ''T'' ''min'' ''+'' = Some (Inr r) \<and>
       map (\<lambda>tb. (title_stage tb, map row_node (table_rows tb))) (tables r) =
       [(3, [''C'', ''D'']), (2, [''A'', ''B'']), (1, [''S''])]"
  using returned[OF ex_tables] by auto

subsection \<open>Edges that do not advance one stage\<close>

lemma check_nbrs_append:
  "check_nbrs so u su (xs @ ys) =
     (case check_nbrs so u su xs of Inl e \<Rightarrow> Inl e | Inr _ \<Rightarrow> check_nbrs so u su ys)"
  by (induction xs) (auto split: option.splits)

lemma check_edges_append:
  "check_edges so (xs @ ys) =
     (case check_edges so xs of Inl e \<Rightarrow> Inl e | Inr _ \<Rightarrow> check_edges so ys)"
  by (induction xs) (auto split: option.splits sum.splits)

lemma validate_Inr_iff:
  "validate_stagecoach layers edges start goal = Inr (so, fl) \<longleftrightarrow>
     layers \<noteq> [] \<and> list_all (\<lambda>L. length L > 0) layers \<and>
     assign_stages 0 layers Map.empty = Inr so \<and> so start = Some 0 \<and>
     so goal = Some (length layers - 1) \<and> check_edges so edges = Inr () \<and> fl = concat layers"
  by (auto simp: validate_stagecoach_def split: sum.splits option.splits)

lemma validate_edges_err:
  "layers \<noteq> [] \<Longrightarrow> list_all (\<lambda>L. length L > 0) layers \<Longrightarrow>
   assign_stages 0 layers Map.empty = Inr so \<Longrightarrow> so start = Some 0 \<Longrightarrow>
   so goal = Some (length layers - 1) \<Longrightarrow> check_edges so edges = Inl e \<Longrightarrow>
   validate_stagecoach layers edges start goal = Inl e"
  by (simp add: validate_stagecoach_def)

lemma validate_rejects_skip:
  assumes "(u, nb) \<in> set edges" and "(v, w) \<in> set nb"
    and "i < length layers" "u \<in> set (layers ! i)"
    and "j < length layers" "v \<in> set (layers ! j)" "j \<noteq> i + 1"
  shows "\<exists>e. validate_stagecoach layers edges start goal = Inl e \<and> is_structure_error e"
proof (cases "validate_stagecoach layers edges start goal")
  case (Inl e)
  then show ?thesis using validate_err by blast
next
  case (Inr x)
  obtain so fl where x: "x = (so, fl)" by (cases x)
  note v = Inr[unfolded x]
  from check_edges_ok[OF validate_ok(7)[OF v] assms(1)] assms(2) obtain su where
    "so u = Some su" "so v = Some (su + 1)" by auto
  moreover have "so u = Some i" "so v = Some j" using validate_ok(4)[OF v] assms(3-6) by auto
  ultimately show ?thesis using assms(7) by simp
qed

text \<open>
  Claim C9, as amended.  On every input with an edge from a node of stage \<open>i\<close> to a node
  of a stage other than \<open>i+1\<close>, validation fails with a structural error and the solver
  returns no result.  The error names that edge when the edge is the first defect met:
  when validation passes on the input cut off just before that edge.  Validation stops
  at the first defect, so a second such edge is not named: the counterexample below.
\<close>

theorem skipping_edge_rejected:
  assumes "edges = pre @ (u, npre @ (v, w) # npost) # post"
    and "i < length layers" "u \<in> set (layers ! i)"
    and "j < length layers" "v \<in> set (layers ! j)" "j \<noteq> i + 1"
  shows "(\<exists>e. validate_stagecoach layers edges start goal = Inl e \<and> is_structure_error e) \<and>
         (\<forall>r. solve_stagecoach_dp layers edges start goal opt_mode combine_op \<noteq> Some (Inr r)) \<and>
         (validates layers (pre @ [(u, npre)]) start goal \<longrightarrow>
            validate_stagecoach layers edges start goal = Inl (EdgeNotNextStage u v))"
proof (intro conjI allI impI)
  have m: "(u, npre @ (v, w) # npost) \<in> set edges" "(v, w) \<in> set (npre @ (v, w) # npost)"
    using assms(1) by auto
  show f: "\<exists>e. validate_stagecoach layers edges start goal = Inl e \<and> is_structure_error e"
    by (rule validate_rejects_skip[OF m assms(2-6)])
  fix r show "solve_stagecoach_dp layers edges start goal opt_mode combine_op \<noteq> Some (Inr r)"
    using solve_InrD(1)[of layers edges start goal opt_mode combine_op r] f by auto
next
  assume "validates layers (pre @ [(u, npre)]) start goal"
  then obtain so fl where "validate_stagecoach layers (pre @ [(u, npre)]) start goal = Inr (so, fl)"
    by (auto simp: validates_def split: sum.splits)
  then have a: "layers \<noteq> []" "list_all (\<lambda>L. length L > 0) layers"
    "assign_stages 0 layers Map.empty = Inr so" "so start = Some 0"
    "so goal = Some (length layers - 1)" and c: "check_edges so (pre @ [(u, npre)]) = Inr ()"
    unfolding validate_Inr_iff by auto
  have su: "so u = Some i" and sv: "so v = Some j"
    using stage_of_char[OF a(3)] assms(2-5) by auto
  from c have p: "check_edges so pre = Inr ()" and n: "check_nbrs so u i npre = Inr ()"
    using su by (auto simp: check_edges_append split: sum.splits)
  have "check_nbrs so u i (npre @ (v, w) # npost) = Inl (EdgeNotNextStage u v)"
    using n sv assms(6) by (simp add: check_nbrs_append)
  then have "check_edges so edges = Inl (EdgeNotNextStage u v)"
    using p su unfolding assms(1) by (simp add: check_edges_append)
  from validate_edges_err[OF a this]
  show "validate_stagecoach layers edges start goal = Inl (EdgeNotNextStage u v)" .
qed

lemma skip_validate:
  "validate_stagecoach row_layers skip_edges ''S'' ''T'' = Inl (EdgeNotNextStage ''S'' ''T'')"
  by (simp add: validate_stagecoach_def row_layers_def skip_edges_def)

theorem skipping_edge_rejected_witness:
  "skip_edges = [] @ (''S'', [] @ (''T'', Fin 1) # []) # [(''A'', [(''S'', Fin 1)])] \<and>
   ''S'' \<in> set (row_layers ! 0) \<and> ''T'' \<in> set (row_layers ! 2) \<and>
   validates row_layers ([] @ [(''S'', [])]) ''S'' ''T'' \<and>
   validate_stagecoach row_layers skip_edges ''S'' ''T'' = Inl (EdgeNotNextStage ''S'' ''T'') \<and>
   solve_stagecoach_dp row_layers skip_edges ''S'' ''T'' ''min'' ''+'' = Some (Inl (EdgeNotNextStage ''S'' ''T''))"
proof -
  have e: "skip_edges = [] @ (''S'', [] @ (''T'', Fin 1) # []) # [(''A'', [(''S'', Fin 1)])]"
    by (simp add: skip_edges_def)
  have l: "0 < length row_layers" "''S'' \<in> set (row_layers ! 0)"
    "2 < length row_layers" "''T'' \<in> set (row_layers ! 2)" "(2::nat) \<noteq> 0 + 1"
    by (simp_all add: row_layers_def)
  have v: "validates row_layers ([] @ [(''S'', [])]) ''S'' ''T''"
    by (simp add: validates_def validate_stagecoach_def row_layers_def)
  from skipping_edge_rejected[OF e l, of "''S''" "''T''" "''min''" "''+''"] v
  have a: "validate_stagecoach row_layers skip_edges ''S'' ''T'' = Inl (EdgeNotNextStage ''S'' ''T'')"
    by blast
  then have "solve_stagecoach_dp row_layers skip_edges ''S'' ''T'' ''min'' ''+'' =
      Some (Inl (EdgeNotNextStage ''S'' ''T''))"
    by (simp add: solve_stagecoach_dp_def)
  with e l v a show ?thesis by blast
qed

theorem second_skipping_edge_unnamed_counterexample:
  "(''A'', [(''S'', Fin 1)]) \<in> set skip_edges \<and>
   ''A'' \<in> set (row_layers ! 1) \<and> ''S'' \<in> set (row_layers ! 0) \<and> (0::nat) \<noteq> 1 + 1 \<and>
   validate_stagecoach row_layers skip_edges ''S'' ''T'' \<noteq> Inl (EdgeNotNextStage ''A'' ''S'')"
  using skip_validate by (simp add: skip_edges_def row_layers_def)

subsection \<open>Where the backward pass stops\<close>



lemma combine_sentinel: "keeps_sentinel cop w \<Longrightarrow> combine cop w (agg_init opt) = agg_init opt"
  by (cases w) (auto simp: keeps_sentinel_def combine_def agg_init_def)





lemma process_nodes_dead:
  assumes "solved opt cop layers edges goal D f p"
    and "distinct us" and "set us \<inter> (D \<union> set (last layers)) = {}"
    and "goal \<in> set (last layers)" and "Suc t < length layers"
    and "set us \<subseteq> set (layers ! t)"
    and "set (layers ! Suc t) \<subseteq> D \<union> set (last layers)"
    and "process_nodes opt cop edges t (layers ! Suc t) us (f, p, rws) = Inl e"
  shows "\<exists>pre u post f' p'. us = pre @ u # post \<and> e = DeadEnd u (t + 1) \<and>
           solved opt cop layers edges goal (D \<union> set pre) f' p' \<and>
           (\<forall>v\<in>set (layers ! Suc t). \<forall>c. candidate opt cop edges f' u v = Some c \<longrightarrow> c = NaN)"
  using assms
proof (induction us arbitrary: D f p rws)
  case Nil
  then show ?case by simp
next
  case (Cons u us)
  obtain totals bv bvs where sc:
    "scan_next opt cop (edges_get edges u) f (layers ! Suc t) = (totals, bv, bvs)"
    by (metis prod_cases3)
  show ?case
  proof (cases "bvs = []")
    case True
    with Cons.prems(8) sc have e: "e = DeadEnd u (t + 1)" by simp
    have "\<forall>v\<in>set (layers ! Suc t). \<forall>c. candidate opt cop edges f u v = Some c \<longrightarrow> c = NaN"
      using scan_inv_empty[OF scan_next_inv[OF sc]] True by simp
    with e Cons.prems(1) show ?thesis
      by (intro exI[of _ "[]"] exI[of _ u] exI[of _ us] exI[of _ f] exI[of _ p]) simp
  next
    case False
    with Cons.prems(8) sc obtain rws1 where rest:
      "process_nodes opt cop edges t (layers ! Suc t) us (f(u \<mapsto> bv), p(u \<mapsto> bvs), rws1) = Inl e"
      by auto
    have s1: "solved opt cop layers edges goal (insert u D) (f(u \<mapsto> bv)) (p(u \<mapsto> bvs))"
      using Cons.prems
      by (intro solved_step[OF Cons.prems(1) _ _ Cons.prems(4,5) _ Cons.prems(7) sc False]) auto
    have "\<exists>pre u' post f' p'. us = pre @ u' # post \<and> e = DeadEnd u' (t + 1) \<and>
           solved opt cop layers edges goal (insert u D \<union> set pre) f' p' \<and>
           (\<forall>v\<in>set (layers ! Suc t). \<forall>c. candidate opt cop edges f' u' v = Some c \<longrightarrow> c = NaN)"
      using Cons.prems by (intro Cons.IH[OF s1 _ _ Cons.prems(4,5) _ _ rest]) auto
    then obtain pre u' post f' p' where o: "us = pre @ u' # post" "e = DeadEnd u' (t + 1)"
      "solved opt cop layers edges goal (insert u D \<union> set pre) f' p'"
      "\<forall>v\<in>set (layers ! Suc t). \<forall>c. candidate opt cop edges f' u' v = Some c \<longrightarrow> c = NaN"
      by blast
    have "insert u D \<union> set pre = D \<union> set (u # pre)" by auto
    with o show ?thesis
      by (intro exI[of _ "u # pre"] exI[of _ u'] exI[of _ post] exI[of _ f'] exI[of _ p']) simp
  qed
qed

lemma stages_loop_dead:
  assumes d: "distinct (concat layers)" and ne: "layers \<noteq> []" and g: "goal \<in> set (last layers)"
  shows "n \<le> length layers - 1 \<Longrightarrow>
    stages_loop opt cop layers edges (rev [length layers - 1 - n..<length layers - 1])
       ([goal \<mapsto> terminal_value cop], [goal \<mapsto> []], []) = Inl e \<Longrightarrow>
    \<exists>t pre u post f p. t < length layers - 1 \<and> layers ! t = pre @ u # post \<and>
       e = DeadEnd u (t + 1) \<and>
       solved opt cop layers edges goal (done_nodes layers (Suc t) \<union> set pre) f p \<and>
       (\<forall>v\<in>set (layers ! Suc t). \<forall>c. candidate opt cop edges f u v = Some c \<longrightarrow> c = NaN)"
proof (induction n)
  case 0
  then show ?case by simp
next
  case (Suc n)
  let ?K = "length layers - 1"
  let ?t = "?K - Suc n"
  let ?init = "([goal \<mapsto> terminal_value cop], [goal \<mapsto> []], [])"
  have tK: "?t < ?K" using Suc.prems(1) by simp
  have st: "Suc ?t = ?K - n" using Suc.prems(1) by simp
  have r: "rev [?t..<?K] = rev [?K - n..<?K] @ [?t]"
    using rev_upt_down[OF tK] st by simp
  show ?case
  proof (cases "stages_loop opt cop layers edges (rev [?K - n..<?K]) ?init")
    case (Inl e')
    with Suc.prems(2) have "e' = e" unfolding r stages_loop_append by simp
    with Inl have l: "stages_loop opt cop layers edges (rev [?K - n..<?K]) ?init = Inl e"
      by (simp only:)
    have "n \<le> ?K" using Suc.prems(1) by simp
    from Suc.IH[OF this l] show ?thesis .
  next
    case (Inr st1)
    obtain f1 p1 tabs1 where st1: "st1 = (f1, p1, tabs1)" by (cases st1)
    have s1: "solved opt cop layers edges goal (done_nodes layers (Suc ?t)) f1 p1"
      using stages_loop_solved[OF d ne g, of n opt cop edges f1 p1 tabs1] Inr st1 Suc.prems(1) st
      by simp
    from Suc.prems(2) Inr st1 have "process_stage opt cop layers edges ?t (f1, p1, tabs1) = Inl e"
      unfolding r stages_loop_append by (auto split: sum.splits)
    then have pn:
      "process_nodes opt cop edges ?t (layers ! Suc ?t) (layers ! ?t) (f1, p1, []) = Inl e"
      by (auto simp: process_stage_def split: sum.splits)
    have "\<exists>pre u post f' p'. layers ! ?t = pre @ u # post \<and> e = DeadEnd u (?t + 1) \<and>
           solved opt cop layers edges goal (done_nodes layers (Suc ?t) \<union> set pre) f' p' \<and>
           (\<forall>v\<in>set (layers ! Suc ?t). \<forall>c. candidate opt cop edges f' u v = Some c \<longrightarrow> c = NaN)"
    proof (rule process_nodes_dead[OF s1 _ _ g _ _ _ pn])
      show "distinct (layers ! ?t)" using distinct_concat_layer[OF d] tK by simp
      show "set (layers ! ?t) \<inter> (done_nodes layers (Suc ?t) \<union> set (last layers)) = {}"
        by (rule layer_fresh[OF d tK])
      show "Suc ?t < length layers" using tK by simp
      show "set (layers ! ?t) \<subseteq> set (layers ! ?t)" by simp
      show "set (layers ! Suc ?t) \<subseteq> done_nodes layers (Suc ?t) \<union> set (last layers)"
        by (rule next_layer_support[OF ne tK])
    qed
    with tK show ?thesis by blast
  qed
qed



lemma solve_DeadEndD:
  assumes "solve_stagecoach_dp layers edges start goal opt cop = Some (Inl (DeadEnd u n))"
  shows "\<exists>t pre post f p. t < length layers - 1 \<and> layers ! t = pre @ u # post \<and> n = t + 1 \<and>
       solved opt cop layers edges goal (done_nodes layers (Suc t) \<union> set pre) f p \<and>
       (\<forall>v\<in>set (layers ! Suc t). \<forall>c. candidate opt cop edges f u v = Some c \<longrightarrow> c = NaN)"
proof (cases "opt \<noteq> ''min'' \<and> opt \<noteq> ''max''")
  case True
  from solve_bad_opt[OF True] assms show ?thesis by simp
next
  case o: False
  show ?thesis
  proof (cases "cop \<noteq> ''+'' \<and> cop \<noteq> ''*''")
    case True
    from solve_bad_op[OF o True] assms show ?thesis by simp
  next
    case c: False
    show ?thesis
    proof (cases "validate_stagecoach layers edges start goal")
      case (Inl e)
      from solve_invalid[OF o c Inl] assms validate_err[OF Inl] show ?thesis by auto
    next
      case (Inr x)
      obtain so fl where x: "x = (so, fl)" by (cases x)
      note v = Inr[unfolded x]
      show ?thesis
      proof (cases "stages_loop opt cop layers edges (rev [0..<length layers - 1])
           ([goal \<mapsto> terminal_value cop], [goal \<mapsto> []], [])")
        case (Inl e)
        from solve_dead[OF o c Inr Inl] assms have e: "e = DeadEnd u n" by simp
        from stages_loop_dead[OF validate_ok(3)[OF v] validate_ok(1)[OF v] validate_ok(6)[OF v],
            of "length layers - 1" opt cop edges e] Inl
        obtain t pre u' post f p where r: "t < length layers - 1" "layers ! t = pre @ u' # post"
          "e = DeadEnd u' (t + 1)"
          "solved opt cop layers edges goal (done_nodes layers (Suc t) \<union> set pre) f p"
          "\<forall>v\<in>set (layers ! Suc t). \<forall>c. candidate opt cop edges f u' v = Some c \<longrightarrow> c = NaN"
          by auto
        from r(3) e have "u' = u" "n = t + 1" by auto
        with r show ?thesis by blast
      next
        case l: (Inr y)
        obtain f p tabs where y: "y = (f, p, tabs)" by (cases y)
        from walk_from_start[OF v l[unfolded y]] solve_walk[OF o c Inr l[unfolded y]] assms
        show ?thesis by (auto split: option.splits)
      qed
    qed
  qed
qed




lemma gap_run:
  "solve_stagecoach_dp row_layers gap_edges ''S'' ''T'' ''min'' ''+'' = Some (Inl (DeadEnd ''A'' 2))"
proof -
  have "map_option (map_sum id (\<lambda>r. ()))
          (solve_stagecoach_dp row_layers gap_edges ''S'' ''T'' ''min'' ''+'')
        = Some (Inl (DeadEnd ''A'' 2))"
    by code_simp
  then show ?thesis by (rule failed)
qed




subsection \<open>A node whose edges all miss the goal\<close>

text \<open>
  Claim C10, as amended.  Let the input pass the configuration checks and validation, let
  \<open>u\<close> be a node of the stage before the last with no edge to the goal and at least one
  edge to a last-stage node \<open>v\<close>, and let every weight on those edges give the sentinel
  back when combined with it (finite under \<open>+\<close>, strictly positive under \<open>*\<close>).  Then the
  solver raises no error naming \<open>u\<close>, and in every result it returns \<open>f_star[u]\<close> is the
  sentinel of the mode, \<open>policy[u]\<close> lists the last-stage neighbours of \<open>u\<close> in declared
  order, and \<open>v\<close> has no \<open>f_star\<close> entry.  Without the condition on the weights the
  candidate need not equal the sentinel: under \<open>*\<close> a zero weight gives not-a-number and
  the dead-end error for \<open>u\<close>, the counterexample below.
\<close>

theorem sentinel_tie:
  assumes "opt_mode = ''min'' \<or> opt_mode = ''max''" and "combine_op = ''+'' \<or> combine_op = ''*''"
    and "validates layers edges start goal"
    and "Suc t = length layers - 1" and "u \<in> set (layers ! t)"
    and "map_of (edges_get edges u) goal = None"
    and "v \<in> set (last layers)" and "map_of (edges_get edges u) v = Some w0"
    and "\<forall>x\<in>set (last layers). \<forall>w. map_of (edges_get edges u) x = Some w \<longrightarrow> keeps_sentinel combine_op w"
  shows "(\<forall>n. solve_stagecoach_dp layers edges start goal opt_mode combine_op \<noteq> Some (Inl (DeadEnd u n))) \<and>
         solve_stagecoach_dp layers edges start goal opt_mode combine_op \<noteq> Some (Inl (NoPath u)) \<and>
         (\<forall>r. solve_stagecoach_dp layers edges start goal opt_mode combine_op = Some (Inr r) \<longrightarrow>
            f_star r u = Some (agg_init opt_mode) \<and>
            policy r u = Some (filter (\<lambda>x. map_of (edges_get edges u) x \<noteq> None) (last layers)) \<and>
            f_star r v = None)"
proof -
  from assms(3) obtain so fl where vl: "validate_stagecoach layers edges start goal = Inr (so, fl)"
    by (auto simp: validates_def split: sum.splits)
  note d = validate_ok(3)[OF vl] and ne = validate_ok(1)[OF vl] and g = validate_ok(6)[OF vl]
  have tK: "t < length layers - 1" using assms(4) by simp
  have lst: "layers ! Suc t = last layers" using assms(4) ne by (simp add: last_conv_nth)
  have vg: "v \<noteq> goal" using assms(6,8) by auto
  have vK: "v \<in> set (layers ! (length layers - 1))" using assms(7) ne by (simp add: last_conv_nth)
  have cand: "candidate opt_mode combine_op edges f u x =
                (if map_of (edges_get edges u) x = None then None else Some (agg_init opt_mode))"
    if "x \<in> set (last layers)" "\<forall>y\<in>set (last layers). y \<noteq> goal \<longrightarrow> f y = None" for f x
  proof (cases "map_of (edges_get edges u) x")
    case None
    then show ?thesis by (simp add: candidate_def)
  next
    case (Some w)
    then have "x \<noteq> goal" using assms(6) by auto
    with that have "f_get f x (agg_init opt_mode) = agg_init opt_mode" by (simp add: f_get_def)
    moreover have "keeps_sentinel combine_op w" using assms(9) that(1) Some by blast
    ultimately show ?thesis using Some combine_sentinel by (simp add: candidate_def)
  qed
  have a: "solve_stagecoach_dp layers edges start goal opt_mode combine_op \<noteq> Some (Inl (DeadEnd u n))" for n
  proof
    assume "solve_stagecoach_dp layers edges start goal opt_mode combine_op = Some (Inl (DeadEnd u n))"
    from solve_DeadEndD[OF this] obtain t' pre post f p where r: "t' < length layers - 1"
      "layers ! t' = pre @ u # post"
      "solved opt_mode combine_op layers edges goal (done_nodes layers (Suc t') \<union> set pre) f p"
      "\<forall>x\<in>set (layers ! Suc t'). \<forall>c. candidate opt_mode combine_op edges f u x = Some c \<longrightarrow> c = NaN"
      by blast
    have "u \<in> set (layers ! t')" using r(2) by simp
    then have t': "t' = t" using distinct_concat_nth[OF d _ _ _ assms(5)] r(1) tK by simp
    have "done_nodes layers (Suc t') = {}" using t' assms(4) done_nodes_top by simp
    moreover have "\<forall>y\<in>set (last layers). y \<notin> set pre"
    proof
      fix y assume "y \<in> set (last layers)"
      then have yK: "y \<in> set (layers ! (length layers - 1))" using ne by (simp add: last_conv_nth)
      show "y \<notin> set pre"
      proof
        assume "y \<in> set pre"
        then have "y \<in> set (layers ! t)" using r(2) t' by simp
        from distinct_concat_nth[OF d _ _ this yK] tK ne show False by simp
      qed
    qed
    ultimately have "\<forall>y\<in>set (last layers). y \<noteq> goal \<longrightarrow> f y = None"
      using r(3) unfolding solved_def by simp
    from cand[OF assms(7) this] assms(8) r(4) t' lst assms(7) agg_init_not_nan show False by auto
  qed
  have b: "solve_stagecoach_dp layers edges start goal opt_mode combine_op \<noteq> Some (Inl (NoPath u))"
  proof
    assume "solve_stagecoach_dp layers edges start goal opt_mode combine_op = Some (Inl (NoPath u))"
    from solve_NoPathD[OF this] have "u \<in> set (layers ! (length layers - 1))"
      using ne by (simp add: last_conv_nth)
    from distinct_concat_nth[OF d _ _ assms(5) this] tK ne show False by simp
  qed
  have c: "f_star r u = Some (agg_init opt_mode) \<and>
           policy r u = Some (filter (\<lambda>x. map_of (edges_get edges u) x \<noteq> None) (last layers)) \<and>
           f_star r v = None"
    if r: "solve_stagecoach_dp layers edges start goal opt_mode combine_op = Some (Inr r)" for r
  proof -
    have s: "solved opt_mode combine_op layers edges goal (done_nodes layers 0) (f_star r) (policy r)"
      by (rule solve_solved[OF r])
    have un: "\<forall>y\<in>set (last layers). y \<noteq> goal \<longrightarrow> f_star r y = None"
      using solved_unprocessed[OF s d] by blast
    from solved_entry[OF s d tK assms(5)] lst obtain bv bvs where e: "f_star r u = Some bv"
      "policy r u = Some bvs"
      "scan_inv opt_mode combine_op edges (f_star r) u (last layers) bv bvs" by auto
    have "bv = agg_init opt_mode"
      using e(3) cand[OF _ un] unfolding scan_inv_def by (auto split: if_splits)
    moreover have "filter (ties opt_mode combine_op edges (f_star r) u (agg_init opt_mode)) (last layers) =
                   filter (\<lambda>x. map_of (edges_get edges u) x \<noteq> None) (last layers)"
      using cand[OF _ un] agg_init_not_nan by (intro filter_cong) (auto simp: ties_def feq_iff)
    ultimately show ?thesis using e un assms(7) vg by (simp add: scan_inv_def)
  qed
  from a b c show ?thesis by blast
qed

lemma zero_weight_run:
  "solve_stagecoach_dp lost_layers (lost_edges (Fin 0)) ''S'' ''T'' ''min'' ''*'' = Some (Inl (DeadEnd ''S'' 1))"
proof -
  have "map_option (map_sum id (\<lambda>r. ()))
          (solve_stagecoach_dp lost_layers (lost_edges (Fin 0)) ''S'' ''T'' ''min'' ''*'')
        = Some (Inl (DeadEnd ''S'' 1))"
    by code_simp
  then show ?thesis by (rule failed)
qed

theorem sentinel_tie_witness:
  "validates stray_layers stray_edges ''S'' ''T'' \<and> ''B'' \<in> set (stray_layers ! 1) \<and>
   edges_get stray_edges ''B'' = [(''X'', Fin 1)] \<and> keeps_sentinel ''+'' (Fin 1) \<and>
   ''X'' \<in> set (last stray_layers) \<and>
   (\<exists>r. solve_stagecoach_dp stray_layers stray_edges ''S'' ''T'' ''min'' ''+'' = Some (Inr r) \<and>
        f_star r ''B'' = Some PInf \<and> policy r ''B'' = Some [''X''] \<and> f_star r ''X'' = None)"
proof -
  have v: "validates stray_layers stray_edges ''S'' ''T''"
    by (simp add: validates_def validate_stagecoach_def stray_layers_def stray_edges_def)
  have t: "Suc 1 = length stray_layers - 1" and b: "''B'' \<in> set (stray_layers ! 1)"
    and x: "''X'' \<in> set (last stray_layers)"
    by (simp_all add: stray_layers_def)
  have e: "edges_get stray_edges ''B'' = [(''X'', Fin 1)]"
    by (simp add: edges_get_def stray_edges_def)
  have k: "keeps_sentinel ''+'' (Fin 1)" by (simp add: keeps_sentinel_def)
  have g: "map_of (edges_get stray_edges ''B'') ''T'' = None"
    and w: "map_of (edges_get stray_edges ''B'') ''X'' = Some (Fin 1)"
    and h: "\<forall>x\<in>set (last stray_layers). \<forall>w. map_of (edges_get stray_edges ''B'') x = Some w \<longrightarrow>
              keeps_sentinel ''+'' w"
    using k by (auto simp: e)
  from returned[OF stray_run] obtain r where
    r: "solve_stagecoach_dp stray_layers stray_edges ''S'' ''T'' ''min'' ''+'' = Some (Inr r)" by blast
  from sentinel_tie[of "''min''" "''+''" stray_layers stray_edges "''S''" "''T''" 1 "''B''" "''X''" "Fin 1",
      OF _ _ v t b g x w h] r
  have "f_star r ''B'' = Some (agg_init ''min'') \<and>
        policy r ''B'' = Some (filter (\<lambda>x. map_of (edges_get stray_edges ''B'') x \<noteq> None) (last stray_layers)) \<and>
        f_star r ''X'' = None" by auto
  then have "f_star r ''B'' = Some PInf \<and> policy r ''B'' = Some [''X''] \<and> f_star r ''X'' = None"
    by (simp add: agg_init_def e stray_layers_def)
  with v b e k x r show ?thesis by blast
qed

theorem zero_weight_dead_end_counterexample:
  "validates lost_layers (lost_edges (Fin 0)) ''S'' ''T'' \<and> ''S'' \<in> set (lost_layers ! 0) \<and>
   edges_get (lost_edges (Fin 0)) ''S'' = [(''X'', Fin 0)] \<and>
   ''X'' \<in> set (last lost_layers) \<and> ''X'' \<noteq> ''T'' \<and>
   solve_stagecoach_dp lost_layers (lost_edges (Fin 0)) ''S'' ''T'' ''min'' ''*'' = Some (Inl (DeadEnd ''S'' 1))"
  using zero_weight_run
  by (simp add: validates_def validate_stagecoach_def lost_layers_def lost_edges_def edges_get_def)

subsection \<open>Paths along the policy\<close>




lemma solved_outside:
  "solved opt cop layers edges goal D f p \<Longrightarrow> u \<notin> D \<Longrightarrow> u \<noteq> goal \<Longrightarrow> f u = None \<and> p u = None"
  unfolding solved_def by (elim conjE) blast

lemma chain_node:
  assumes "solved opt cop layers edges goal D f p" and "policy_chain p goal u sfx"
  shows "u = goal \<or> u \<in> D"
proof (cases sfx)
  case Nil
  with assms(2) show ?thesis by simp
next
  case (Cons v rest)
  with assms(2) have "v \<in> set (case p u of Some vs \<Rightarrow> vs | None \<Rightarrow> [])" by simp
  then have "p u \<noteq> None" by (cases "p u") simp_all
  with solved_outside[OF assms(1), of u] show ?thesis by blast
qed

lemma in_doneD: "x \<in> done_nodes layers 0 \<Longrightarrow> \<exists>t<length layers - 1. x \<in> set (layers ! t)"
proof -
  assume "x \<in> done_nodes layers 0"
  then obtain i where "i \<in> {0..<length layers - 1}" "x \<in> set (layers ! i)"
    unfolding done_nodes_def by blast
  then show ?thesis by auto
qed

lemma scan_inv_tie:
  assumes "scan_inv opt cop edges f u nl bv bvs" and "v \<in> set bvs"
  shows "\<exists>w. map_of (edges_get edges u) v = Some w \<and>
             combine cop w (f_get f v (agg_init opt)) = bv \<and> v \<in> set nl"
proof -
  from assms have "bvs = filter (ties opt cop edges f u bv) nl" by (simp add: scan_inv_def)
  with assms(2) have v: "v \<in> set nl" and t: "ties opt cop edges f u bv v" by simp_all
  from t obtain c where c: "candidate opt cop edges f u v = Some c" "feq c bv"
    by (cases "candidate opt cop edges f u v") (simp_all add: ties_def)
  from c(1) obtain w where w: "map_of (edges_get edges u) v = Some w"
    "c = combine cop w (f_get f v (agg_init opt))"
    by (cases "map_of (edges_get edges u) v") (simp_all add: candidate_def)
  from c(2) have "c = bv" by (simp add: feq_iff)
  with w v show ?thesis by simp
qed






subsection \<open>Minimum against maximum\<close>

lemma solved_goal:
  "solved opt cop layers edges goal D f p \<Longrightarrow> f goal = Some (terminal_value cop) \<and> p goal = Some []"
  unfolding solved_def by (elim conjE) (rule conjI)

lemma fge_refl: "a \<noteq> NaN \<Longrightarrow> fge a a"
  by (simp add: fge_def feq_iff)

lemma fadd_nonneg: "fgt w (Fin 0) \<Longrightarrow> fge z (Fin 0) \<Longrightarrow> fge (fadd w z) (Fin 0)"
  by (cases w; cases z) (auto simp: fge_def fgt_def)

lemma fadd_mono_bound:
  "fgt w (Fin 0) \<Longrightarrow> fge a' (Fin 0) \<Longrightarrow> fge b' a' \<Longrightarrow> a \<noteq> NaN \<Longrightarrow>
   \<not> flt (fadd w a') a \<Longrightarrow> fge (fadd w b') a"
  by (cases w; cases a'; cases b'; cases a) (auto simp: fge_def fgt_def)

lemma positive_lookup:
  assumes "positive_weights edges" and "map_of (edges_get edges u) v = Some w"
  shows "fgt w (Fin 0)"
proof (cases "map_of edges u")
  case None
  with assms(2) show ?thesis by (simp add: edges_get_def)
next
  case (Some nb)
  then have "(u, nb) \<in> set edges" by (rule map_of_SomeD)
  moreover from Some assms(2) have "(v, w) \<in> set nb" by (simp add: edges_get_def map_of_SomeD)
  ultimately show ?thesis using assms(1) unfolding positive_weights_def list_all_iff by fastforce
qed

lemma min_values_nonneg:
  assumes s: "solved ''min'' ''+'' layers edges goal (done_nodes layers 0) f p"
    and d: "distinct (concat layers)" and ne: "layers \<noteq> []" and pw: "positive_weights edges"
  shows "n = length layers - 1 - i \<Longrightarrow> i < length layers \<Longrightarrow> x \<in> set (layers ! i) \<Longrightarrow>
         f x = Some y \<Longrightarrow> fge y (Fin 0)"
proof (induction n arbitrary: i x y)
  case 0
  then have "i = length layers - 1" by simp
  with "0.prems"(3) have "x \<in> set (last layers)" using ne by (simp add: last_conv_nth)
  show ?case
  proof (cases "x = goal")
    case True
    with solved_goal[OF s] "0.prems"(4) have "y = Fin 0" by (simp add: terminal_value_def)
    then show ?thesis by (simp add: fge_def)
  next
    case False
    with solved_unprocessed[OF s d \<open>x \<in> set (last layers)\<close>] "0.prems"(4) show ?thesis by simp
  qed
next
  case (Suc n)
  then have t: "i < length layers - 1" by simp
  from solved_entry[OF s d t Suc.prems(3)] Suc.prems(4) obtain bvs where
    e: "scan_inv ''min'' ''+'' edges f x (layers ! Suc i) y bvs" by auto
  then consider (init) "y = agg_init ''min''"
    | (cand) v where "v \<in> set (layers ! Suc i)" "candidate ''min'' ''+'' edges f x v = Some y"
    unfolding scan_inv_def by blast
  then show ?case
  proof cases
    case init
    then show ?thesis by (simp add: agg_init_def fge_def fgt_def)
  next
    case cand
    from cand(2) obtain w where w: "map_of (edges_get edges x) v = Some w"
      "y = combine ''+'' w (f_get f v (agg_init ''min''))"
      by (cases "map_of (edges_get edges x) v") (simp_all add: candidate_def)
    have "fge (f_get f v (agg_init ''min'')) (Fin 0)"
    proof (cases "f v")
      case None
      then show ?thesis by (simp add: f_get_def agg_init_def fge_def fgt_def)
    next
      case (Some z)
      have "n = length layers - 1 - Suc i" "Suc i < length layers" using Suc.prems(1) t by auto
      from Suc.IH[OF this cand(1) Some] Some show ?thesis by (simp add: f_get_def)
    qed
    from fadd_nonneg[OF positive_lookup[OF pw w(1)] this] w(2) show ?thesis
      by (simp add: combine_def)
  qed
qed

lemma chain_max_ge_min:
  assumes s1: "solved ''min'' ''+'' layers edges goal (done_nodes layers 0) f1 p1"
    and s2: "solved ''max'' ''+'' layers edges goal (done_nodes layers 0) f2 p2"
    and d: "distinct (concat layers)" and ne: "layers \<noteq> []" and pw: "positive_weights edges"
  shows "policy_chain p2 goal u sfx \<Longrightarrow> \<exists>a b. f1 u = Some a \<and> f2 u = Some b \<and> fge b a"
proof (induction sfx arbitrary: u)
  case Nil
  then have "u = goal" by simp
  with solved_goal[OF s1] solved_goal[OF s2] show ?case
    by (simp add: terminal_value_def fge_def)
next
  case (Cons v rest)
  from Cons.prems have ug: "u \<noteq> goal" and ch: "policy_chain p2 goal v rest"
    and vin: "v \<in> set (case p2 u of Some vs \<Rightarrow> vs | None \<Rightarrow> [])" by simp_all
  from chain_node[OF s2 Cons.prems] ug have "u \<in> done_nodes layers 0" by simp
  from in_doneD[OF this] obtain t where t: "t < length layers - 1" "u \<in> set (layers ! t)"
    by blast
  from solved_entry[OF s2 d t] obtain b bvs2 where e2: "f2 u = Some b" "p2 u = Some bvs2"
    "scan_inv ''max'' ''+'' edges f2 u (layers ! Suc t) b bvs2" by blast
  from vin e2(2) have "v \<in> set bvs2" by simp
  from scan_inv_tie[OF e2(3) this] obtain w where w: "map_of (edges_get edges u) v = Some w"
    "combine ''+'' w (f_get f2 v (agg_init ''max'')) = b" "v \<in> set (layers ! Suc t)" by blast
  from Cons.IH[OF ch] obtain a' b' where ih: "f1 v = Some a'" "f2 v = Some b'" "fge b' a'"
    by blast
  from solved_entry[OF s1 d t] obtain a bvs1 where e1: "f1 u = Some a"
    "scan_inv ''min'' ''+'' edges f1 u (layers ! Suc t) a bvs1" by blast
  have c1: "candidate ''min'' ''+'' edges f1 u v = Some (fadd w a')"
    using w(1) ih(1) by (simp add: candidate_def combine_def f_get_def)
  have nb: "\<not> flt (fadd w a') a"
  proof -
    from e1(2) have "\<forall>x\<in>set (layers ! Suc t). \<forall>c. candidate ''min'' ''+'' edges f1 u x = Some c \<longrightarrow>
        \<not> better ''min'' c a" by (simp add: scan_inv_def)
    with w(3) c1 have "\<not> better ''min'' (fadd w a') a" by blast
    then show ?thesis by (simp add: better_def)
  qed
  have an: "a \<noteq> NaN" using e1(2) by (simp add: scan_inv_def)
  have "Suc t < length layers" using t(1) by simp
  from min_values_nonneg[OF s1 d ne pw refl this w(3) ih(1)] have a0: "fge a' (Fin 0)" .
  have "b = fadd w b'" using w(2) ih(2) by (simp add: combine_def f_get_def)
  with fadd_mono_bound[OF positive_lookup[OF pw w(1)] a0 ih(3) an nb] e1(1) e2(1)
  show ?case by simp
qed

lemma ex_max_run:
  "map_option (map_sum id (\<lambda>r. (optimal_cost r, path r)))
     (solve_stagecoach_dp ex_layers ex_edges ''S'' ''T'' ''max'' ''+'')
   = Some (Inr (Fin 10, [''S'', ''B'', ''C'', ''T'']))"
  by code_simp

text \<open>
  Claim C8.  On one input whose edge weights are all strictly positive, with operator
  \<open>+\<close>, when the solver returns a result in mode \<open>min\<close> and a result in mode \<open>max\<close>, the
  optimal cost of the second is greater than or equal to that of the first, by Python's
  \<open>>=\<close>.
\<close>

theorem max_not_below_min:
  assumes "positive_weights edges"
    and "solve_stagecoach_dp layers edges start goal ''min'' ''+'' = Some (Inr r_min)"
    and "solve_stagecoach_dp layers edges start goal ''max'' ''+'' = Some (Inr r_max)"
  shows "fge (optimal_cost r_max) (optimal_cost r_min)"
proof -
  from solve_InrD(1)[OF assms(2)] obtain so fl where
    v: "validate_stagecoach layers edges start goal = Inr (so, fl)" by blast
  note d = validate_ok(3)[OF v] and ne = validate_ok(1)[OF v]
  from walk_from_start[OF v solve_InrD(2)[OF assms(3)]] solve_InrD(3)[OF assms(3)]
  obtain sfx where ch: "policy_chain (policy r_max) goal start sfx" by auto
  from chain_max_ge_min[OF solve_solved[OF assms(2)] solve_solved[OF assms(3)] d ne assms(1) ch]
    solve_InrD(4)[OF assms(2)] solve_InrD(4)[OF assms(3)]
  show ?thesis by auto
qed

theorem max_not_below_min_witness:
  "positive_weights ex_edges \<and>
   (\<exists>r1 r2. solve_stagecoach_dp ex_layers ex_edges ''S'' ''T'' ''min'' ''+'' = Some (Inr r1) \<and>
      solve_stagecoach_dp ex_layers ex_edges ''S'' ''T'' ''max'' ''+'' = Some (Inr r2) \<and>
      optimal_cost r1 = Fin 5 \<and> optimal_cost r2 = Fin 10 \<and>
      fge (optimal_cost r2) (optimal_cost r1))"
proof -
  have p: "positive_weights ex_edges"
    by (simp add: positive_weights_def ex_edges_def fgt_def)
  from returned[OF ex_run] obtain r1 where
    r1: "solve_stagecoach_dp ex_layers ex_edges ''S'' ''T'' ''min'' ''+'' = Some (Inr r1)"
    and c1: "optimal_cost r1 = Fin 5" by auto
  from returned[OF ex_max_run] obtain r2 where
    r2: "solve_stagecoach_dp ex_layers ex_edges ''S'' ''T'' ''max'' ''+'' = Some (Inr r2)"
    and c2: "optimal_cost r2 = Fin 10" by auto
  from max_not_below_min[OF p r1 r2] p r1 r2 c1 c2 show ?thesis by blast
qed

end
